theory Spec2Isabelle
  imports Main
begin

section \<open>MikroTik security monitor: the ingestion and detection pipeline of main.py\<close>

text \<open>
  The development follows \<^verbatim>\<open>src/main.py\<close> stage by stage: the failure classifier
  (the loop over \<^verbatim>\<open>log_entries\<close>), the ledger difference and append, the report, and the
  brute-force detection over the new rows.

  Modelling decisions, all visible in the definitions below:
  \<^item> a log entry is the dictionary the RouterOS API hands back, a map from field names to
    strings; \<^verbatim>\<open>entry.get(k)\<close> is the map lookup and a missing key is \<open>None\<close>;
  \<^item> a string is a list of characters; \<^verbatim>\<open>str.lower\<close> changes the letters A to Z
    only; for the word boundaries of the regular expression a character above 127 stands
    for a character outside ASCII, and whether it is a word character is read from the
    parameter \<open>alnum\<close>, the Unicode database;
  \<^item> a data frame is the list of its rows, each row a record of its columns, a missing
    value (\<^verbatim>\<open>None\<close>, \<^verbatim>\<open>NaN\<close>, \<^verbatim>\<open>NaT\<close>) being \<open>None\<close>;
  \<^item> the ledger file is the list of rows it holds, \<open>None\<close> when the file does not exist;
    writing the file and reading it back is taken to return the same identities;
  \<^item> \<^verbatim>\<open>pd.to_datetime\<close> is a library function called once on the whole column: it is
    the parameter \<open>pd_parse\<close>, which for a column either raises or fixes the outcome of
    every string of that column, \<open>None\<close> for a time it cannot parse
    (\<^verbatim>\<open>errors='coerce'\<close>); timestamps are integers, in nanoseconds;
  \<^item> the clock enters through the parameter \<open>stamp\<close>, the formatted run time that names
    the artifacts.
\<close>

subsection \<open>Strings\<close>

definition ascii_upper :: string where
  "ascii_upper = ''ABCDEFGHIJKLMNOPQRSTUVWXYZ''"

definition ascii_lower :: string where
  "ascii_lower = ''abcdefghijklmnopqrstuvwxyz''"

definition lower_char :: "char \<Rightarrow> char" where
  "lower_char c = (case map_of (zip ascii_upper ascii_lower) c of Some l \<Rightarrow> l | None \<Rightarrow> c)"

text \<open>\<^verbatim>\<open>message.lower()\<close>\<close>

definition lower :: "string \<Rightarrow> string" where
  "lower s = map lower_char s"

fun startswith :: "string \<Rightarrow> string \<Rightarrow> bool" where
  "startswith s [] = True"
| "startswith [] (k # ks) = False"
| "startswith (c # cs) (k # ks) = (c = k \<and> startswith cs ks)"

text \<open>\<^verbatim>\<open>keyword in message\<close>: the substring test of Python strings.\<close>

fun str_in :: "string \<Rightarrow> string \<Rightarrow> bool" where
  "str_in k [] = (k = [])"
| "str_in k (c # cs) = (startswith (c # cs) k \<or> str_in k cs)"

text \<open>How an f-string renders an optional value: \<^verbatim>\<open>None\<close> prints as the word None.\<close>

definition fmt :: "string option \<Rightarrow> string" where
  "fmt v = (case v of None \<Rightarrow> ''None'' | Some s \<Rightarrow> s)"

subsection \<open>Configuration\<close>

definition FAILURE_KEYWORDS :: "string list" where
  "FAILURE_KEYWORDS = [''login failure'', ''failed'', ''denied'', ''invalid'']"

definition BRUTE_FORCE_THRESHOLD :: nat where
  "BRUTE_FORCE_THRESHOLD = 2"

definition BRUTE_FORCE_WINDOW :: int where
  "BRUTE_FORCE_WINDOW = 5"

subsection \<open>Log entries and failure records\<close>

type_synonym log_entry = "string \<rightharpoonup> string"

text \<open>\<^verbatim>\<open>entry.get(key, default)\<close>\<close>

definition get_default :: "log_entry \<Rightarrow> string \<Rightarrow> string \<Rightarrow> string" where
  "get_default entry k d = (case entry k of None \<Rightarrow> d | Some v \<Rightarrow> v)"

text \<open>One row of \<^verbatim>\<open>failed_logins\<close>, with the four columns of the ledger file.\<close>

record failure_record =
  time :: "string option"
  message :: "string option"
  topics :: "string option"
  ident :: string

text \<open>The dictionary appended for a matching entry (main.py, lines 78 to 83).\<close>

definition failure_of :: "log_entry \<Rightarrow> failure_record" where
  "failure_of entry =
     \<lparr> time = entry ''time'',
       message = entry ''message'',
       topics = entry ''topics'',
       ident = fmt (entry ''time'') @ ''|'' @ fmt (entry ''message'') \<rparr>"

text \<open>\<^verbatim>\<open>any(keyword in message for keyword in FAILURE_KEYWORDS)\<close> on the lower-cased message.\<close>

definition is_failure :: "log_entry \<Rightarrow> bool" where
  "is_failure entry =
     (let message = lower (get_default entry ''message'' '''')
      in list_ex (\<lambda>keyword. str_in keyword message) FAILURE_KEYWORDS)"

text \<open>The classification loop (main.py, lines 74 to 83), \<open>acc\<close> being \<^verbatim>\<open>failed_logins\<close>.\<close>

fun classify_loop :: "log_entry list \<Rightarrow> failure_record list \<Rightarrow> failure_record list" where
  "classify_loop [] acc = acc"
| "classify_loop (entry # rest) acc =
     (if is_failure entry then classify_loop rest (acc @ [failure_of entry])
      else classify_loop rest acc)"

definition classify :: "log_entry list \<Rightarrow> failure_record list" where
  "classify log_entries = classify_loop log_entries []"

subsection \<open>The IP extractor\<close>

text \<open>
  \<^verbatim>\<open>re.search(r'\b(?:[0-9]{1,3}\.){3}[0-9]{1,3}\b', message)\<close>, written out as the
  backtracking search it is: the start positions are tried from left to right, a group
  \<^verbatim>\<open>[0-9]{1,3}\<close> tries three digits, then two, then one, and the first alternative that
  lets the rest of the pattern match wins.

  On a \<^verbatim>\<open>str\<close> pattern \<^verbatim>\<open>\b\<close> follows Unicode: a word character is an ASCII letter,
  an ASCII digit, the underscore, or a character outside ASCII that the Unicode database
  classes as alphanumeric. That database is the parameter \<open>alnum\<close>; it is consulted for
  characters above 127 only. \<^verbatim>\<open>[0-9]\<close> is the ten ASCII digits.
\<close>

definition is_digit :: "char \<Rightarrow> bool" where
  "is_digit c = (c \<in> set ''0123456789'')"

definition is_ascii :: "char \<Rightarrow> bool" where
  "is_ascii c = ((of_char c :: nat) < 128)"

definition is_word :: "(char \<Rightarrow> bool) \<Rightarrow> char \<Rightarrow> bool" where
  "is_word alnum c =
     (c \<in> set (''_0123456789'' @ ascii_lower @ ascii_upper) \<or> (\<not> is_ascii c \<and> alnum c))"

definition is_word_at :: "(char \<Rightarrow> bool) \<Rightarrow> char option \<Rightarrow> bool" where
  "is_word_at alnum p = (case p of None \<Rightarrow> False | Some c \<Rightarrow> is_word alnum c)"

text \<open>
  \<^verbatim>\<open>\b\<close> between the character before a position and the character after it, \<open>None\<close>
  standing for the start or the end of the string.
\<close>

definition word_boundary :: "(char \<Rightarrow> bool) \<Rightarrow> char option \<Rightarrow> char option \<Rightarrow> bool" where
  "word_boundary alnum left right = (is_word_at alnum left \<noteq> is_word_at alnum right)"

definition head :: "string \<Rightarrow> char option" where
  "head s = (case s of [] \<Rightarrow> None | c # _ \<Rightarrow> Some c)"

fun first_some :: "('a \<Rightarrow> 'b option) \<Rightarrow> 'a list \<Rightarrow> 'b option" where
  "first_some f [] = None"
| "first_some f (x # xs) = (case f x of Some y \<Rightarrow> Some y | None \<Rightarrow> first_some f xs)"

definition digits_prefix :: "nat \<Rightarrow> string \<Rightarrow> bool" where
  "digits_prefix k s = (k \<le> length s \<and> list_all is_digit (take k s))"

text \<open>
  \<open>match_quad alnum n s\<close> matches \<^verbatim>\<open>(?:[0-9]{1,3}\.){n}[0-9]{1,3}\b\<close> at the start of
  \<open>s\<close> and returns the length of the match.
\<close>

fun match_quad :: "(char \<Rightarrow> bool) \<Rightarrow> nat \<Rightarrow> string \<Rightarrow> nat option" where
  "match_quad alnum 0 s =
     first_some (\<lambda>k. if digits_prefix k s \<and>
                         word_boundary alnum (Some (last (take k s))) (head (drop k s))
                      then Some k else None) [3, 2, 1]"
| "match_quad alnum (Suc n) s =
     first_some (\<lambda>k. if digits_prefix k s \<and> head (drop k s) = Some CHR ''.''
                      then map_option (\<lambda>m. k + 1 + m) (match_quad alnum n (drop (Suc k) s))
                      else None) [3, 2, 1]"

text \<open>The whole pattern at one start position, \<open>left\<close> being the character before it.\<close>

definition match_here :: "(char \<Rightarrow> bool) \<Rightarrow> char option \<Rightarrow> string \<Rightarrow> nat option" where
  "match_here alnum left s =
     (if word_boundary alnum left (head s) then match_quad alnum 3 s else None)"

fun re_search :: "(char \<Rightarrow> bool) \<Rightarrow> char option \<Rightarrow> string \<Rightarrow> string option" where
  "re_search alnum left [] =
     (case match_here alnum left [] of Some n \<Rightarrow> Some (take n []) | None \<Rightarrow> None)"
| "re_search alnum left (c # cs) =
     (case match_here alnum left (c # cs) of
        Some n \<Rightarrow> Some (take n (c # cs))
      | None \<Rightarrow> re_search alnum (Some c) cs)"

definition extract_ip :: "(char \<Rightarrow> bool) \<Rightarrow> string \<Rightarrow> string option" where
  "extract_ip alnum msg = re_search alnum None msg"

subsection \<open>The ledger difference\<close>

datatype py_error = KeyError string | TypeError | ValueError

text \<open>
  \<^verbatim>\<open>pd.read_csv(LOG_CSV) if os.path.exists(LOG_CSV) else pd.DataFrame()\<close>
\<close>

definition read_ledger :: "failure_record list option \<Rightarrow> failure_record list" where
  "read_ledger ledger_file = (case ledger_file of None \<Rightarrow> [] | Some rows \<Rightarrow> rows)"

text \<open>\<^verbatim>\<open>column.isin(values)\<close>: the boolean mask of a column.\<close>

definition isin :: "string list \<Rightarrow> string list \<Rightarrow> bool list" where
  "isin column vals = map (\<lambda>v. v \<in> set vals) column"

text \<open>\<^verbatim>\<open>df[mask]\<close>: the rows of a frame at which the mask is true.\<close>

definition select_rows :: "'a list \<Rightarrow> bool list \<Rightarrow> 'a list" where
  "select_rows df keep = map fst (filter snd (zip df keep))"

text \<open>
  \<^verbatim>\<open>df[~df['id'].isin(existing_df.get('id', []))]\<close> (main.py, line 88). A frame built
  from an empty list has no columns, so \<^verbatim>\<open>df['id']\<close> raises \<^verbatim>\<open>KeyError\<close> there;
  \<^verbatim>\<open>existing_df.get\<close> never raises.
\<close>

definition new_entries :: "failure_record list \<Rightarrow> failure_record list \<Rightarrow> py_error + failure_record list" where
  "new_entries df existing_df =
     (if df = [] then Inl (KeyError ''id'')
      else Inr (select_rows df (map Not (isin (map ident df) (map ident existing_df)))))"

subsection \<open>Brute-force detection\<close>

text \<open>A row of \<^verbatim>\<open>new_entries\<close> once the columns \<^verbatim>\<open>ip\<close> and \<^verbatim>\<open>datetime\<close> are added.\<close>

record det_row = failure_record +
  ip :: "string option"
  datetime :: "int option"

text \<open>
  \<^verbatim>\<open>new_entries['message'].apply(extract_ip)\<close> (line 105), cell by cell. \<^verbatim>\<open>re.search\<close>
  raises \<^verbatim>\<open>TypeError\<close> on a message that is not a string.
\<close>

fun apply_extract_ip :: "(char \<Rightarrow> bool) \<Rightarrow> string option list \<Rightarrow> py_error + string option list" where
  "apply_extract_ip alnum [] = Inr []"
| "apply_extract_ip alnum (cell # cells) =
     (case cell of
        None \<Rightarrow> Inl TypeError
      | Some msg \<Rightarrow>
          (case apply_extract_ip alnum cells of
             Inl e \<Rightarrow> Inl e
           | Inr ips \<Rightarrow> Inr (extract_ip alnum msg # ips)))"

text \<open>
  \<^verbatim>\<open>pd.to_datetime(new_entries['time'], errors='coerce')\<close> (line 106) is one call on the
  whole column: pandas reads the column, settles how its strings are to be parsed (the
  format is inferred from the first cell that is not missing) or raises, and then turns
  every cell into a timestamp or into NaT. The library is the parameter \<open>pd_parse\<close>:
  given the column it returns the error it raises, or the outcome of each string under
  the reading it settled on. So one string may parse in one column and not in another. A
  missing cell is NaT.
\<close>

definition to_datetime_cell :: "(string \<Rightarrow> int option) \<Rightarrow> string option \<Rightarrow> int option" where
  "to_datetime_cell parse cell = (case cell of None \<Rightarrow> None | Some s \<Rightarrow> parse s)"

definition to_datetime ::
  "(string option list \<Rightarrow> py_error + (string \<Rightarrow> int option)) \<Rightarrow> string option list \<Rightarrow>
     py_error + int option list" where
  "to_datetime pd_parse column =
     (case pd_parse column of
        Inl e \<Rightarrow> Inl e
      | Inr parse \<Rightarrow> Inr (map (to_datetime_cell parse) column))"

text \<open>A row with its two new cells.\<close>

definition with_columns :: "failure_record \<Rightarrow> string option \<Rightarrow> int option \<Rightarrow> det_row" where
  "with_columns r i d =
     \<lparr> time = time r, message = message r, topics = topics r, ident = ident r,
       ip = i, datetime = d \<rparr>"

text \<open>Lines 105 and 106: first the column \<^verbatim>\<open>ip\<close>, then the column \<^verbatim>\<open>datetime\<close>.\<close>

definition add_columns ::
  "(char \<Rightarrow> bool) \<Rightarrow> (string option list \<Rightarrow> py_error + (string \<Rightarrow> int option)) \<Rightarrow>
     failure_record list \<Rightarrow> py_error + det_row list" where
  "add_columns alnum pd_parse new =
     (case apply_extract_ip alnum (map message new) of
        Inl e \<Rightarrow> Inl e
      | Inr ips \<Rightarrow>
          (case to_datetime pd_parse (map time new) of
             Inl e \<Rightarrow> Inl e
           | Inr dts \<Rightarrow> Inr (map (\<lambda>(r, i, d). with_columns r i d) (zip new (zip ips dts)))))"

text \<open>
  \<^verbatim>\<open>dropna()\<close> keeps a row when none of its cells is missing; the identity is a string and
  is never missing. The loop reads the cells \<^verbatim>\<open>ip\<close> and \<^verbatim>\<open>datetime\<close> of a kept row.
\<close>

definition dropna_row :: "det_row \<Rightarrow> (string \<times> int) option" where
  "dropna_row row =
     (case (time row, message row, topics row, ip row, datetime row) of
        (Some _, Some _, Some _, Some i, Some d) \<Rightarrow> Some (i, d)
      | _ \<Rightarrow> None)"

definition dropna :: "det_row list \<Rightarrow> (string \<times> int) list" where
  "dropna rows = List.map_filter dropna_row rows"

text \<open>
  \<^verbatim>\<open>ip_attempts[k].append(v)\<close> on a \<^verbatim>\<open>defaultdict(list)\<close>: a dictionary keeps its keys in
  the order of their first insertion.
\<close>

fun dd_append :: "string \<Rightarrow> int \<Rightarrow> (string \<times> int list) list \<Rightarrow> (string \<times> int list) list" where
  "dd_append k v [] = [(k, [v])]"
| "dd_append k v ((k', vs) # rest) =
     (if k = k' then (k', vs @ [v]) # rest else (k', vs) # dd_append k v rest)"

fun group_loop :: "(string \<times> int) list \<Rightarrow> (string \<times> int list) list \<Rightarrow> (string \<times> int list) list" where
  "group_loop [] ip_attempts = ip_attempts"
| "group_loop ((i, d) # rows) ip_attempts = group_loop rows (dd_append i d ip_attempts)"

definition group_attempts :: "det_row list \<Rightarrow> (string \<times> int list) list" where
  "group_attempts rows = group_loop (dropna rows) []"

text \<open>\<^verbatim>\<open>max(times)\<close> and \<^verbatim>\<open>min(times)\<close>; both raise \<^verbatim>\<open>ValueError\<close> on an empty list.\<close>

fun py_max :: "int list \<Rightarrow> int option" where
  "py_max [] = None"
| "py_max (x # xs) = Some (fold max xs x)"

fun py_min :: "int list \<Rightarrow> int option" where
  "py_min [] = None"
| "py_min (x # xs) = Some (fold min xs x)"

text \<open>\<^verbatim>\<open>timedelta(minutes=m)\<close>, in nanoseconds.\<close>

definition timedelta_minutes :: "int \<Rightarrow> int" where
  "timedelta_minutes m = m * 60000000000"

text \<open>
  The condition of the comprehension (lines 114 and 115). \<^verbatim>\<open>and\<close> evaluates the span
  only when the length test holds, so the span is never taken of an empty list.
\<close>

definition is_brute_force :: "int list \<Rightarrow> bool" where
  "is_brute_force ts =
     (if BRUTE_FORCE_THRESHOLD \<le> length ts
      then (case (py_max ts, py_min ts) of
              (Some hi, Some lo) \<Rightarrow> hi - lo \<le> timedelta_minutes BRUTE_FORCE_WINDOW
            | _ \<Rightarrow> False)
      else False)"

definition brute_force_ips :: "(string \<times> int list) list \<Rightarrow> string list" where
  "brute_force_ips ip_attempts = map fst (filter (\<lambda>(i, ts). is_brute_force ts) ip_attempts)"

text \<open>Lines 105 to 110: the dictionary \<^verbatim>\<open>ip_attempts\<close> of the new rows.\<close>

definition ip_attempts ::
  "(char \<Rightarrow> bool) \<Rightarrow> (string option list \<Rightarrow> py_error + (string \<Rightarrow> int option)) \<Rightarrow>
     failure_record list \<Rightarrow> py_error + (string \<times> int list) list" where
  "ip_attempts alnum pd_parse new =
     (case add_columns alnum pd_parse new of
        Inl e \<Rightarrow> Inl e
      | Inr rows \<Rightarrow> Inr (group_attempts rows))"

text \<open>Lines 105 to 116: the flagged addresses of the new rows.\<close>

definition detect ::
  "(char \<Rightarrow> bool) \<Rightarrow> (string option list \<Rightarrow> py_error + (string \<Rightarrow> int option)) \<Rightarrow>
     failure_record list \<Rightarrow> py_error + string list" where
  "detect alnum pd_parse new =
     (case ip_attempts alnum pd_parse new of
        Inl e \<Rightarrow> Inl e
      | Inr attempts \<Rightarrow> Inr (brute_force_ips attempts))"

subsection \<open>One run\<close>

datatype artifact = Report "failure_record list" | Alert "string list"

datatype outcome = Failed py_error | No_new | Logged "failure_record list" "string list"

text \<open>
  What a run leaves behind: the ledger file, the artifact files it wrote (name and
  content, in the order written) and the status it printed. A report holds the table of
  the new rows, an alert the flagged addresses.
\<close>

record run =
  ledger_after :: "failure_record list option"
  written :: "(string \<times> artifact) list"
  status :: outcome

text \<open>
  \<^verbatim>\<open>main()\<close> from the fetched entries on (lines 73 to 131). An exception is caught at
  the end of \<^verbatim>\<open>main\<close> and printed; what was written before it stays written.
\<close>

definition main ::
  "(char \<Rightarrow> bool) \<Rightarrow> (string option list \<Rightarrow> py_error + (string \<Rightarrow> int option)) \<Rightarrow>
     string \<Rightarrow> log_entry list \<Rightarrow> failure_record list option \<Rightarrow> run" where
  "main alnum pd_parse stamp log_entries ledger_file =
     (let failed_logins = classify log_entries;
          existing_df = read_ledger ledger_file
      in case new_entries failed_logins existing_df of
           Inl e \<Rightarrow> \<lparr> ledger_after = ledger_file, written = [], status = Failed e \<rparr>
         | Inr new \<Rightarrow>
             if new = [] then \<lparr> ledger_after = ledger_file, written = [], status = No_new \<rparr>
             else
               (let saved = Some (existing_df @ new);
                    report = (''failed_logins_'' @ stamp @ ''.txt'', Report new)
                in case detect alnum pd_parse new of
                     Inl e \<Rightarrow> \<lparr> ledger_after = saved, written = [report], status = Failed e \<rparr>
                   | Inr ips \<Rightarrow>
                       \<lparr> ledger_after = saved,
                         written = report #
                           (if ips = [] then []
                            else [(''brute_force_alert_'' @ stamp @ ''.txt'', Alert ips)]),
                         status = Logged new ips \<rparr>))"

subsection \<open>Notions used to state the properties\<close>

text \<open>The elements of a list in the order of their first occurrence.\<close>

primrec first_seen :: "'a list \<Rightarrow> 'a list" where
  "first_seen [] = []"
| "first_seen (x # xs) = x # filter (\<lambda>y. y \<noteq> x) (first_seen xs)"

text \<open>The timestamps recorded for the address \<open>k\<close>, in the order of the rows.\<close>

definition values_of :: "string \<Rightarrow> (string \<times> int) list \<Rightarrow> int list" where
  "values_of k kvs = map snd (filter (\<lambda>(j, v). j = k) kvs)"

text \<open>
  The address and timestamp under which a new record enters the grouping, \<open>parse\<close> being
  the outcome of \<^verbatim>\<open>pd.to_datetime\<close> on the column of the run: the cells \<^verbatim>\<open>ip\<close> and
  \<^verbatim>\<open>datetime\<close> of its row when \<open>dropna\<close> keeps the row, \<open>None\<close> when it does not.
\<close>

definition grouped_as ::
  "(char \<Rightarrow> bool) \<Rightarrow> (string \<Rightarrow> int option) \<Rightarrow> failure_record \<Rightarrow> (string \<times> int) option" where
  "grouped_as alnum parse r =
     (case message r of
        None \<Rightarrow> None
      | Some msg \<Rightarrow>
          dropna_row (with_columns r (extract_ip alnum msg) (to_datetime_cell parse (time r))))"

text \<open>The addresses found in the messages of the records, in the order of the records.\<close>

definition addresses :: "(char \<Rightarrow> bool) \<Rightarrow> failure_record list \<Rightarrow> string list" where
  "addresses alnum rs = List.map_filter (\<lambda>r. Option.bind (message r) (extract_ip alnum)) rs"

text \<open>
  The dotted-quad pattern as the specification words it: four groups of one to three
  digits, separated by periods.
\<close>

definition digit_group :: "string \<Rightarrow> bool" where
  "digit_group g = (1 \<le> length g \<and> length g \<le> 3 \<and> list_all is_digit g)"

definition dotted_quad :: "string \<Rightarrow> bool" where
  "dotted_quad s =
     (\<exists>a b c d. s = a @ ''.'' @ b @ ''.'' @ c @ ''.'' @ d \<and>
        digit_group a \<and> digit_group b \<and> digit_group c \<and> digit_group d)"

text \<open>
  \<open>quad_at alnum left s pre quad suf\<close>: the string \<open>s\<close> is \<open>pre\<close>, then the dotted quad
  \<open>quad\<close>, then \<open>suf\<close>, and the quad is delimited: no word character stands directly
  before it or directly after it. \<open>left\<close> is the character before \<open>s\<close>, \<open>None\<close> at
  the start of a message.
\<close>

definition quad_at ::
  "(char \<Rightarrow> bool) \<Rightarrow> char option \<Rightarrow> string \<Rightarrow> string \<Rightarrow> string \<Rightarrow> string \<Rightarrow> bool" where
  "quad_at alnum left s pre quad suf =
     (s = pre @ quad @ suf \<and> dotted_quad quad \<and>
      \<not> is_word_at alnum (if pre = [] then left else Some (last pre)) \<and>
      \<not> is_word_at alnum (head suf))"

subsection \<open>Sample inputs\<close>

text \<open>
  A log entry as RouterOS writes it for a failed SSH login at time \<open>t\<close> from the address
  \<open>a\<close>; a reading of clock times (nanoseconds since midnight) that rejects every other
  string, and a \<^verbatim>\<open>pd.to_datetime\<close> that settles on that reading for every column; a
  Unicode database without alphanumeric characters outside ASCII, and one in which the
  character 233 (a Latin letter) is alphanumeric. The concrete runs below are built from
  them.
\<close>

definition ssh_failure :: "string \<Rightarrow> string \<Rightarrow> log_entry" where
  "ssh_failure t a =
     [''time'' \<mapsto> t,
      ''message'' \<mapsto> ''login failure for user admin from '' @ a @ '' via ssh'',
      ''topics'' \<mapsto> ''system,error,critical'']"

definition clock_parse :: "string \<Rightarrow> int option" where
  "clock_parse =
     map_of [(''10:00:00'', 36000000000000), (''10:00:01'', 36001000000000),
             (''10:00:02'', 36002000000000), (''10:00:03'', 36003000000000),
             (''10:00:04'', 36004000000000), (''10:02:00'', 36120000000000),
             (''10:05:00'', 36300000000000), (''10:05:01'', 36301000000000)]"

definition clock_column :: "string option list \<Rightarrow> py_error + (string \<Rightarrow> int option)" where
  "clock_column column = Inr clock_parse"

definition ascii_only :: "char \<Rightarrow> bool" where
  "ascii_only c = False"

definition latin_letter :: "char \<Rightarrow> bool" where
  "latin_letter c = ((of_char c :: nat) = 233)"

section \<open>Properties\<close>

subsection \<open>The substring test\<close>

lemma startswith_iff: "startswith s k \<longleftrightarrow> (\<exists>suf. s = k @ suf)"
  by (induction s k rule: startswith.induct) auto

lemma str_in_iff: "str_in k s \<longleftrightarrow> (\<exists>pre suf. s = pre @ k @ suf)"
proof (induction s)
  case Nil
  then show ?case by auto
next
  case (Cons c cs)
  show ?case
  proof
    assume "str_in k (c # cs)"
    then consider "startswith (c # cs) k" | "str_in k cs" by auto
    then show "\<exists>pre suf. c # cs = pre @ k @ suf"
    proof cases
      case 1
      then obtain suf where "c # cs = k @ suf" by (auto simp: startswith_iff)
      then have "c # cs = [] @ k @ suf" by simp
      then show ?thesis by blast
    next
      case 2
      then obtain pre suf where "cs = pre @ k @ suf" using Cons.IH by auto
      then have "c # cs = (c # pre) @ k @ suf" by simp
      then show ?thesis by blast
    qed
  next
    assume "\<exists>pre suf. c # cs = pre @ k @ suf"
    then obtain pre suf where eq: "c # cs = pre @ k @ suf" by auto
    show "str_in k (c # cs)"
    proof (cases pre)
      case Nil
      then have "startswith (c # cs) k" unfolding startswith_iff using eq by auto
      then show ?thesis by simp
    next
      case (Cons p ps)
      then have "cs = ps @ k @ suf" using eq by simp
      then show ?thesis using Cons.IH by auto
    qed
  qed
qed

subsection \<open>The classifier\<close>

lemma classify_loop_acc:
  "classify_loop es acc = acc @ map failure_of (filter is_failure es)"
  by (induction es arbitrary: acc) auto

lemma classify_eq: "classify es = map failure_of (filter is_failure es)"
  by (simp add: classify_def classify_loop_acc)

lemma is_failure_iff:
  "is_failure e \<longleftrightarrow>
     (\<exists>k \<in> {''login failure'', ''failed'', ''denied'', ''invalid''}.
        \<exists>pre suf. lower (get_default e ''message'' '''') = pre @ k @ suf)"
  unfolding is_failure_def Let_def list_ex_iff FAILURE_KEYWORDS_def str_in_iff
  by simp

text \<open>
  C5. Over every batch of log entries the classifier returns, in order, one record for
  each entry whose lower-cased message contains one of the four keywords as a substring,
  and nothing for the other entries.
\<close>

theorem classify_keyword_match:
  "classify log_entries =
     map failure_of
       (filter (\<lambda>entry. \<exists>k \<in> {''login failure'', ''failed'', ''denied'', ''invalid''}.
                  \<exists>pre suf. lower (get_default entry ''message'' '''') = pre @ k @ suf)
          log_entries)"
  using is_failure_iff by (simp add: classify_eq cong: filter_cong)

theorem classify_keyword_match_witness:
  "classify
     [[''time'' \<mapsto> ''10:00:00'', ''message'' \<mapsto> ''Session INVALIDATED for admin''],
      [''time'' \<mapsto> ''10:00:01'', ''message'' \<mapsto> ''user admin logged in from 10.0.0.9''],
      [''time'' \<mapsto> ''10:00:02'']] =
   [\<lparr> time = Some ''10:00:00'', message = Some ''Session INVALIDATED for admin'',
      topics = None, ident = ''10:00:00|Session INVALIDATED for admin'' \<rparr>]"
proof -
  let ?a = "[''time'' \<mapsto> ''10:00:00'', ''message'' \<mapsto> ''Session INVALIDATED for admin'']"
  let ?b = "[''time'' \<mapsto> ''10:00:01'', ''message'' \<mapsto> ''user admin logged in from 10.0.0.9'']"
  let ?c = "[''time'' \<mapsto> ''10:00:02'']"
  have a: "is_failure ?a" by code_simp
  have b: "\<not> is_failure ?b" by code_simp
  have c: "\<not> is_failure ?c" by code_simp
  have "classify [?a, ?b, ?c] = map failure_of (filter is_failure [?a, ?b, ?c])"
    using classify_keyword_match [of "[?a, ?b, ?c]"] is_failure_iff
    by (simp cong: filter_cong)
  then show ?thesis using a b c by (simp add: failure_of_def fmt_def)
qed

subsection \<open>Grouping and the threshold rule\<close>

lemma set_first_seen [simp]: "set (first_seen xs) = set xs"
  by (induction xs) auto

lemma distinct_first_seen [simp]: "distinct (first_seen xs)"
  by (induction xs) auto

lemma first_seen_snoc:
  "first_seen (xs @ [x]) = (if x \<in> set xs then first_seen xs else first_seen xs @ [x])"
proof (induction xs)
  case Nil
  then show ?case by simp
next
  case (Cons a xs)
  then show ?case by (auto simp: filter_id_conv)
qed

lemma values_of_snoc:
  "values_of k (kvs @ [(i, v)]) = values_of k kvs @ (if i = k then [v] else [])"
  by (simp add: values_of_def)

lemma values_of_Nil_iff: "values_of k kvs = [] \<longleftrightarrow> k \<notin> fst ` set kvs"
  by (induction kvs) (auto simp: values_of_def)

lemma group_loop_snoc: "group_loop (kvs @ [(i, v)]) d = dd_append i v (group_loop kvs d)"
  by (induction kvs d rule: group_loop.induct) auto

lemma dd_append_tabulate:
  "distinct ks \<Longrightarrow>
   dd_append i v (map (\<lambda>k. (k, f k)) ks) =
     (if i \<in> set ks then map (\<lambda>k. (k, if k = i then f k @ [v] else f k)) ks
      else map (\<lambda>k. (k, f k)) ks @ [(i, [v])])"
  by (induction ks) auto

lemma group_loop_closed:
  "group_loop kvs [] = map (\<lambda>k. (k, values_of k kvs)) (first_seen (map fst kvs))"
proof (induction kvs rule: rev_induct)
  case Nil
  then show ?case by simp
next
  case (snoc kv kvs)
  obtain i v where kv: "kv = (i, v)" by (cases kv)
  show ?case
  proof (cases "i \<in> fst ` set kvs")
    case True
    then show ?thesis
      using snoc.IH
      by (simp add: kv group_loop_snoc dd_append_tabulate first_seen_snoc values_of_snoc)
  next
    case False
    then have "values_of i kvs = []" by (simp add: values_of_Nil_iff)
    with False show ?thesis
      using snoc.IH
      by (auto simp: kv group_loop_snoc dd_append_tabulate first_seen_snoc values_of_snoc)
  qed
qed

lemma py_max_eq: "ts \<noteq> [] \<Longrightarrow> py_max ts = Some (Max (set ts))"
  by (cases ts) (simp, simp only: py_max.simps Max.set_eq_fold)

lemma py_min_eq: "ts \<noteq> [] \<Longrightarrow> py_min ts = Some (Min (set ts))"
  by (cases ts) (simp, simp only: py_min.simps Min.set_eq_fold)

lemma is_brute_force_iff:
  "is_brute_force ts \<longleftrightarrow> 2 \<le> length ts \<and> Max (set ts) - Min (set ts) \<le> 300000000000"
proof (cases "2 \<le> length ts")
  case True
  then have "ts \<noteq> []" by auto
  then show ?thesis
    using True
    by (simp add: is_brute_force_def BRUTE_FORCE_THRESHOLD_def BRUTE_FORCE_WINDOW_def
        timedelta_minutes_def py_max_eq py_min_eq)
next
  case False
  then show ?thesis by (simp add: is_brute_force_def BRUTE_FORCE_THRESHOLD_def)
qed

lemma brute_force_ips_closed:
  "brute_force_ips (group_loop kvs []) =
     filter (\<lambda>k. is_brute_force (values_of k kvs)) (first_seen (map fst kvs))"
  by (simp add: brute_force_ips_def group_loop_closed filter_map comp_def)

lemma brute_force_ips_group_attempts:
  "brute_force_ips (group_attempts rows) =
     filter (\<lambda>k. is_brute_force (values_of k (dropna rows))) (first_seen (map fst (dropna rows)))"
  by (simp add: group_attempts_def brute_force_ips_closed)

text \<open>
  C1. An address is flagged exactly when the timestamps grouped under it (those of its
  rows that \<open>dropna\<close> keeps) number at least 2 and the latest is at most 5 minutes
  (300000000000 ns) after the earliest; a span of exactly 5 minutes is flagged.
\<close>

theorem brute_force_flag_rule:
  "i \<in> set (brute_force_ips (group_attempts rows)) \<longleftrightarrow>
     2 \<le> length (values_of i (dropna rows)) \<and>
     Max (set (values_of i (dropna rows))) - Min (set (values_of i (dropna rows)))
       \<le> 300000000000"
proof -
  have "is_brute_force (values_of i (dropna rows)) \<Longrightarrow> i \<in> fst ` set (dropna rows)"
    using values_of_Nil_iff [of i "dropna rows"] by (auto simp: is_brute_force_iff)
  then show ?thesis
    by (auto simp: brute_force_ips_group_attempts is_brute_force_iff)
qed

theorem brute_force_flag_rule_witness:
  "''10.0.0.5'' \<in> set (brute_force_ips (group_attempts
      [\<lparr> time = Some ''10:00:00'', message = Some ''login failure from 10.0.0.5'',
         topics = Some ''system,error'', ident = ''10:00:00|login failure from 10.0.0.5'',
         ip = Some ''10.0.0.5'', datetime = Some 0 \<rparr>,
       \<lparr> time = Some ''10:02:00'', message = Some ''login failure from 10.0.0.5'',
         topics = Some ''system,error'', ident = ''10:02:00|login failure from 10.0.0.5'',
         ip = Some ''10.0.0.5'', datetime = Some 120000000000 \<rparr>,
       \<lparr> time = Some ''10:05:00'', message = Some ''login failure from 10.0.0.5'',
         topics = Some ''system,error'', ident = ''10:05:00|login failure from 10.0.0.5'',
         ip = Some ''10.0.0.5'', datetime = Some 300000000000 \<rparr>])) \<and>
   ''10.0.0.5'' \<notin> set (brute_force_ips (group_attempts
      [\<lparr> time = Some ''10:00:00'', message = Some ''login failure from 10.0.0.5'',
         topics = Some ''system,error'', ident = ''10:00:00|login failure from 10.0.0.5'',
         ip = Some ''10.0.0.5'', datetime = Some 0 \<rparr>,
       \<lparr> time = Some ''10:02:00'', message = Some ''login failure from 10.0.0.5'',
         topics = Some ''system,error'', ident = ''10:02:00|login failure from 10.0.0.5'',
         ip = Some ''10.0.0.5'', datetime = Some 120000000000 \<rparr>,
       \<lparr> time = Some ''10:05:01'', message = Some ''login failure from 10.0.0.5'',
         topics = Some ''system,error'', ident = ''10:05:01|login failure from 10.0.0.5'',
         ip = Some ''10.0.0.5'', datetime = Some 301000000000 \<rparr>]))"
  unfolding brute_force_flag_rule
  by (simp add: dropna_def dropna_row_def values_of_def)

subsection \<open>The ledger and the run\<close>

lemma select_rows_isin:
  "select_rows df (map Not (isin (map f df) vals)) = filter (\<lambda>r. f r \<notin> set vals) df"
  by (induction df) (simp_all add: select_rows_def isin_def)

lemma new_entries_Nil: "new_entries [] existing = Inl (KeyError ''id'')"
  by (simp add: new_entries_def)

lemma new_entries_nonempty:
  "df \<noteq> [] \<Longrightarrow>
   new_entries df existing = Inr (filter (\<lambda>r. ident r \<notin> ident ` set existing) df)"
  by (simp add: new_entries_def select_rows_isin)

lemma new_entries_Inr:
  "new_entries df existing = Inr new \<Longrightarrow>
   df \<noteq> [] \<and> new = filter (\<lambda>r. ident r \<notin> ident ` set existing) df"
  by (cases "df = []") (simp_all add: new_entries_Nil new_entries_nonempty)

lemma new_entries_again:
  assumes "new_entries df existing = Inr new"
  shows "new_entries df (existing @ new) = Inr []"
proof -
  from assms have df: "df \<noteq> []"
    and new: "new = filter (\<lambda>r. ident r \<notin> ident ` set existing) df"
    using new_entries_Inr by blast+
  have "filter (\<lambda>r. ident r \<notin> ident ` set (existing @ new)) df = []"
    unfolding filter_empty_conv new by auto
  then show ?thesis using df by (simp add: new_entries_nonempty)
qed

lemma main_Failed:
  "new_entries (classify log_entries) (read_ledger ledger_file) = Inl e \<Longrightarrow>
   main alnum pd_parse stamp log_entries ledger_file =
     \<lparr> ledger_after = ledger_file, written = [], status = Failed e \<rparr>"
  by (simp add: main_def)

lemma main_No_new:
  "new_entries (classify log_entries) (read_ledger ledger_file) = Inr [] \<Longrightarrow>
   main alnum pd_parse stamp log_entries ledger_file =
     \<lparr> ledger_after = ledger_file, written = [], status = No_new \<rparr>"
  by (simp add: main_def)

lemma main_new:
  assumes "new_entries (classify log_entries) (read_ledger ledger_file) = Inr new" and "new \<noteq> []"
  shows "ledger_after (main alnum pd_parse stamp log_entries ledger_file) =
           Some (read_ledger ledger_file @ new)"
    and "\<exists>rest. written (main alnum pd_parse stamp log_entries ledger_file) =
           (''failed_logins_'' @ stamp @ ''.txt'', Report new) # rest"
  using assms by (auto simp: main_def Let_def split: sum.splits)

lemma second_run:
  "written (main alnum' pd_parse' stamp' log_entries (ledger_after (main alnum pd_parse stamp log_entries ledger_file))) = [] \<and>
   ledger_after (main alnum' pd_parse' stamp' log_entries (ledger_after (main alnum pd_parse stamp log_entries ledger_file))) =
     ledger_after (main alnum pd_parse stamp log_entries ledger_file) \<and>
   status (main alnum' pd_parse' stamp' log_entries (ledger_after (main alnum pd_parse stamp log_entries ledger_file))) =
     (if classify log_entries = [] then Failed (KeyError ''id'') else No_new)"
proof (cases "new_entries (classify log_entries) (read_ledger ledger_file)")
  case (Inl e)
  then have "classify log_entries = []"
    by (auto simp: new_entries_def split: if_splits)
  then have e: "\<And>l. new_entries (classify log_entries) l = Inl (KeyError ''id'')"
    by (simp add: new_entries_Nil)
  show ?thesis
    by (simp add: main_Failed [OF e] \<open>classify log_entries = []\<close>)
next
  case (Inr new)
  then have ne: "classify log_entries \<noteq> []" using new_entries_Inr by blast
  show ?thesis
  proof (cases "new = []")
    case True
    with Inr show ?thesis by (simp add: main_No_new ne)
  next
    case False
    have led: "ledger_after (main alnum pd_parse stamp log_entries ledger_file) =
                 Some (read_ledger ledger_file @ new)"
      using main_new(1) [OF Inr False] .
    have "new_entries (classify log_entries) (read_ledger (Some (read_ledger ledger_file @ new))) = Inr []"
      using new_entries_again [OF Inr] by (simp add: read_ledger_def)
    then show ?thesis
      by (simp add: led main_No_new ne)
  qed
qed

text \<open>
  C2. A second run over the same log entries, started from the ledger the first run
  left, writes no artifact, leaves the ledger as it is and logs no new entry: it ends with
  the message for no new entries, or with the \<^verbatim>\<open>KeyError\<close> of an empty candidate frame
  when no entry is a failure at all. Behind it: once the difference has been appended to
  the ledger, the difference of the same candidates is empty.
\<close>

theorem second_run_adds_nothing:
  "(let first = main alnum pd_parse stamp log_entries ledger_file;
        second = main alnum' pd_parse' stamp' log_entries (ledger_after first)
    in written second = [] \<and>
       ledger_after second = ledger_after first \<and>
       status second = (if classify log_entries = [] then Failed (KeyError ''id'') else No_new)) \<and>
   (\<forall>new. new_entries candidates existing = Inr new \<longrightarrow>
      new_entries candidates (existing @ new) = Inr [])"
  using second_run [of alnum' pd_parse' stamp' log_entries alnum pd_parse stamp ledger_file] new_entries_again
  by (simp add: Let_def)

theorem second_run_adds_nothing_witness:
  "ledger_after
     (main ascii_only clock_column ''2024-05-01_10-00''
        [[''time'' \<mapsto> ''t1'', ''message'' \<mapsto> ''failed login from 1.2.3.4'', ''topics'' \<mapsto> ''system,error''],
         [''time'' \<mapsto> ''t2'', ''message'' \<mapsto> ''failed login from 1.2.3.4'', ''topics'' \<mapsto> ''system,error'']]
        (Some [\<lparr> time = Some ''t1'', message = Some ''failed login from 1.2.3.4'',
                  topics = Some ''system,error'', ident = ''t1|failed login from 1.2.3.4'' \<rparr>])) =
   Some [\<lparr> time = Some ''t1'', message = Some ''failed login from 1.2.3.4'',
            topics = Some ''system,error'', ident = ''t1|failed login from 1.2.3.4'' \<rparr>,
         \<lparr> time = Some ''t2'', message = Some ''failed login from 1.2.3.4'',
            topics = Some ''system,error'', ident = ''t2|failed login from 1.2.3.4'' \<rparr>] \<and>
   main ascii_only clock_column ''2024-05-01_10-05''
     [[''time'' \<mapsto> ''t1'', ''message'' \<mapsto> ''failed login from 1.2.3.4'', ''topics'' \<mapsto> ''system,error''],
      [''time'' \<mapsto> ''t2'', ''message'' \<mapsto> ''failed login from 1.2.3.4'', ''topics'' \<mapsto> ''system,error'']]
     (Some [\<lparr> time = Some ''t1'', message = Some ''failed login from 1.2.3.4'',
               topics = Some ''system,error'', ident = ''t1|failed login from 1.2.3.4'' \<rparr>,
            \<lparr> time = Some ''t2'', message = Some ''failed login from 1.2.3.4'',
               topics = Some ''system,error'', ident = ''t2|failed login from 1.2.3.4'' \<rparr>]) =
   \<lparr> ledger_after =
       Some [\<lparr> time = Some ''t1'', message = Some ''failed login from 1.2.3.4'',
                topics = Some ''system,error'', ident = ''t1|failed login from 1.2.3.4'' \<rparr>,
             \<lparr> time = Some ''t2'', message = Some ''failed login from 1.2.3.4'',
                topics = Some ''system,error'', ident = ''t2|failed login from 1.2.3.4'' \<rparr>],
     written = [], status = No_new \<rparr>"
proof -
  let ?logs = "[[''time'' \<mapsto> ''t1'', ''message'' \<mapsto> ''failed login from 1.2.3.4'', ''topics'' \<mapsto> ''system,error''],
         [''time'' \<mapsto> ''t2'', ''message'' \<mapsto> ''failed login from 1.2.3.4'', ''topics'' \<mapsto> ''system,error'']]"
  let ?r1 = "\<lparr> time = Some ''t1'', message = Some ''failed login from 1.2.3.4'',
                  topics = Some ''system,error'', ident = ''t1|failed login from 1.2.3.4'' \<rparr>"
  let ?r2 = "\<lparr> time = Some ''t2'', message = Some ''failed login from 1.2.3.4'',
                  topics = Some ''system,error'', ident = ''t2|failed login from 1.2.3.4'' \<rparr>"
  have c: "classify ?logs = [?r1, ?r2]"
    by code_simp
  have n: "new_entries [?r1, ?r2] [?r1] = Inr [?r2]"
    by (simp add: new_entries_def select_rows_def isin_def)
  have l: "ledger_after (main ascii_only clock_column ''2024-05-01_10-00'' ?logs (Some [?r1])) = Some [?r1, ?r2]"
    by (simp add: main_def c n read_ledger_def Let_def split: sum.splits)
  show ?thesis
    using second_run_adds_nothing [of ascii_only clock_column "''2024-05-01_10-00''" ?logs
        "Some [?r1]" ascii_only clock_column "''2024-05-01_10-05''"]
    unfolding Let_def l
    by (simp add: c run.equality)
qed

text \<open>
  C3. The difference keeps, in order, the candidates whose identity is not in the ledger
  (lemma \<open>new_entries_nonempty\<close>, for a frame with at least one candidate). For a log
  without any failure entry the candidate frame has no column \<^verbatim>\<open>id\<close>, and the run stops
  with \<^verbatim>\<open>KeyError\<close> instead of finding nothing new.
\<close>

theorem no_failure_entries_raise_KeyError:
  "classify [[''time'' \<mapsto> ''10:00:00'', ''message'' \<mapsto> ''user admin logged in from 10.0.0.9 via winbox'',
              ''topics'' \<mapsto> ''system,info,account'']] = [] \<and>
   new_entries
     (classify [[''time'' \<mapsto> ''10:00:00'', ''message'' \<mapsto> ''user admin logged in from 10.0.0.9 via winbox'',
              ''topics'' \<mapsto> ''system,info,account'']])
     (read_ledger None) = Inl (KeyError ''id'') \<and>
   main ascii_only clock_column ''2024-05-01_10-00''
     [[''time'' \<mapsto> ''10:00:00'', ''message'' \<mapsto> ''user admin logged in from 10.0.0.9 via winbox'',
       ''topics'' \<mapsto> ''system,info,account'']] None =
     \<lparr> ledger_after = None, written = [], status = Failed (KeyError ''id'') \<rparr>"
proof -
  have c: "classify [[''time'' \<mapsto> ''10:00:00'', ''message'' \<mapsto> ''user admin logged in from 10.0.0.9 via winbox'',
              ''topics'' \<mapsto> ''system,info,account'']] = []"
    by code_simp
  have n: "new_entries (classify [[''time'' \<mapsto> ''10:00:00'', ''message'' \<mapsto> ''user admin logged in from 10.0.0.9 via winbox'',
              ''topics'' \<mapsto> ''system,info,account'']]) (read_ledger None) = Inl (KeyError ''id'')"
    unfolding c by (rule new_entries_Nil)
  show ?thesis
    using c n main_Failed [OF n] by simp
qed

lemma main_ledger_after:
  "ledger_after (main alnum pd_parse stamp log_entries ledger_file) =
     (if filter (\<lambda>r. ident r \<notin> ident ` set (read_ledger ledger_file)) (classify log_entries) = []
      then ledger_file
      else Some (read_ledger ledger_file @
             filter (\<lambda>r. ident r \<notin> ident ` set (read_ledger ledger_file)) (classify log_entries)))"
proof (cases "classify log_entries = []")
  case True
  then have "new_entries (classify log_entries) (read_ledger ledger_file) = Inl (KeyError ''id'')"
    by (simp add: new_entries_Nil)
  then show ?thesis using True by (simp add: main_Failed)
next
  case False
  let ?new = "filter (\<lambda>r. ident r \<notin> ident ` set (read_ledger ledger_file)) (classify log_entries)"
  have n: "new_entries (classify log_entries) (read_ledger ledger_file) = Inr ?new"
    using False by (rule new_entries_nonempty)
  show ?thesis
  proof (cases "?new = []")
    case True
    then show ?thesis using n by (simp add: main_No_new)
  next
    case False
    then show ?thesis using main_new(1) [OF n False] by simp
  qed
qed

text \<open>
  C7. Two candidates of one batch with the same identity, not yet in the ledger, are both
  appended, so the invariant can be lost. From a ledger whose identities are pairwise
  distinct, the ledger after the run has pairwise distinct identities exactly when the
  records the run appends (the candidates whose identity is not in the ledger) have
  pairwise distinct identities. Duplicate candidates that are already in the ledger do
  no harm.
\<close>

theorem ledger_identities_stay_distinct:
  assumes "distinct (map ident (read_ledger ledger_file))"
  shows "distinct (map ident (read_ledger
           (ledger_after (main alnum pd_parse stamp log_entries ledger_file)))) \<longleftrightarrow>
         distinct (map ident
           (filter (\<lambda>r. ident r \<notin> ident ` set (read_ledger ledger_file)) (classify log_entries)))"
proof -
  let ?new = "filter (\<lambda>r. ident r \<notin> ident ` set (read_ledger ledger_file)) (classify log_entries)"
  show ?thesis
  proof (cases "?new = []")
    case True
    then show ?thesis using assms by (simp add: main_ledger_after)
  next
    case False
    have "x \<notin> ident ` set (read_ledger ledger_file)" if "x \<in> ident ` set ?new" for x
      using that by auto
    then have "ident ` set (read_ledger ledger_file) \<inter> ident ` set ?new = {}"
      by blast
    then show ?thesis
      using assms False by (simp add: main_ledger_after read_ledger_def)
  qed
qed

theorem ledger_identities_stay_distinct_witness:
  "distinct (map ident (read_ledger (ledger_after
     (main ascii_only clock_column ''2024-05-01_10-00''
        [ssh_failure ''10:00:00'' ''10.0.0.5'', ssh_failure ''10:00:00'' ''10.0.0.5'',
         ssh_failure ''10:00:01'' ''10.0.0.5'']
        (Some [failure_of (ssh_failure ''10:00:00'' ''10.0.0.5'')])))))"
proof -
  let ?x = "ssh_failure ''10:00:00'' ''10.0.0.5''"
  let ?y = "ssh_failure ''10:00:01'' ''10.0.0.5''"
  have a: "distinct (map ident (read_ledger (Some [failure_of ?x])))"
    by (simp add: read_ledger_def)
  have c: "classify [?x, ?x, ?y] = [failure_of ?x, failure_of ?x, failure_of ?y]"
    by code_simp
  have xy: "ident (failure_of ?y) \<noteq> ident (failure_of ?x)"
    by code_simp
  have b: "distinct (map ident
      (filter (\<lambda>r. ident r \<notin> ident ` set (read_ledger (Some [failure_of ?x])))
         (classify [?x, ?x, ?y])))"
    unfolding c using xy by (simp add: read_ledger_def)
  show ?thesis
    using ledger_identities_stay_distinct [OF a, of ascii_only clock_column
        "''2024-05-01_10-00''" "[?x, ?x, ?y]"] b
    by simp
qed

theorem ledger_duplicate_identity_counterexample:
  "distinct (map ident (read_ledger None)) \<and>
   \<not> distinct (map ident (read_ledger (ledger_after
     (main ascii_only clock_column ''2024-05-01_10-00''
        [[''time'' \<mapsto> ''10:00:00'', ''message'' \<mapsto> ''login failure for user admin from 10.0.0.5 via ssh'',
          ''topics'' \<mapsto> ''system,error,critical''],
         [''time'' \<mapsto> ''10:00:00'', ''message'' \<mapsto> ''login failure for user admin from 10.0.0.5 via ssh'',
          ''topics'' \<mapsto> ''system,error,critical'']]
        None))))"
proof -
  let ?e = "[''time'' \<mapsto> ''10:00:00'', ''message'' \<mapsto> ''login failure for user admin from 10.0.0.5 via ssh'',
          ''topics'' \<mapsto> ''system,error,critical'']"
  let ?r = "\<lparr> time = Some ''10:00:00'', message = Some ''login failure for user admin from 10.0.0.5 via ssh'',
              topics = Some ''system,error,critical'',
              ident = ''10:00:00|login failure for user admin from 10.0.0.5 via ssh'' \<rparr>"
  have c: "classify [?e, ?e] = [?r, ?r]"
    by code_simp
  have n: "new_entries [?r, ?r] (read_ledger None) = Inr [?r, ?r]"
    by (simp add: new_entries_def select_rows_def isin_def read_ledger_def)
  have "ledger_after (main ascii_only clock_column ''2024-05-01_10-00'' [?e, ?e] None) = Some [?r, ?r]"
    using main_new(1) [of "[?e, ?e]" None "[?r, ?r]" ascii_only clock_column "''2024-05-01_10-00''"] n
    unfolding c by (simp add: read_ledger_def)
  then show ?thesis
    by (simp add: read_ledger_def)
qed

subsection \<open>Which records are grouped\<close>

lemma is_failure_message: "is_failure e \<Longrightarrow> e ''message'' \<noteq> None"
  by (cases "e ''message''")
    (auto simp: is_failure_def Let_def get_default_def lower_def FAILURE_KEYWORDS_def)

lemma classify_message: "r \<in> set (classify es) \<Longrightarrow> message r \<noteq> None"
  by (auto simp: classify_eq failure_of_def dest: is_failure_message)

lemma new_entries_message:
  "new_entries (classify es) existing = Inr new \<Longrightarrow> r \<in> set new \<Longrightarrow> message r \<noteq> None"
  using new_entries_Inr [of "classify es" existing new] classify_message [of r es] by auto

lemma apply_extract_ip_total:
  "(\<And>r. r \<in> set rs \<Longrightarrow> message r \<noteq> None) \<Longrightarrow>
   apply_extract_ip alnum (map message rs) =
     Inr (map (\<lambda>r. Option.bind (message r) (extract_ip alnum)) rs)"
proof (induction rs)
  case Nil
  then show ?case by simp
next
  case (Cons r rs)
  obtain m where m: "message r = Some m" using Cons.prems [of r] by auto
  have "apply_extract_ip alnum (map message rs) =
      Inr (map (\<lambda>r. Option.bind (message r) (extract_ip alnum)) rs)"
    using Cons by simp
  then show ?case by (simp add: m)
qed

lemma apply_extract_ip_Inr:
  "apply_extract_ip alnum (map message rs) = Inr ips \<Longrightarrow> r \<in> set rs \<Longrightarrow> message r \<noteq> None"
proof (induction rs arbitrary: ips)
  case Nil
  then show ?case by simp
next
  case (Cons a rs)
  from Cons.prems(1) obtain m ips' where m: "message a = Some m"
    and rest: "apply_extract_ip alnum (map message rs) = Inr ips'"
    by (auto split: option.splits sum.splits)
  show ?case
  proof (cases "r = a")
    case True
    then show ?thesis using m by simp
  next
    case False
    then have "r \<in> set rs" using Cons.prems(2) by simp
    then show ?thesis using Cons.IH [OF rest] by simp
  qed
qed

lemma zip_columns:
  "map (\<lambda>(r, i, d). f r i d) (zip rs (zip (map g rs) (map h rs))) = map (\<lambda>r. f r (g r) (h r)) rs"
  by (induction rs) simp_all

lemma add_columns_closed:
  assumes "\<And>r. r \<in> set rs \<Longrightarrow> message r \<noteq> None" and "pd_parse (map time rs) = Inr parse"
  shows "add_columns alnum pd_parse rs =
     Inr (map (\<lambda>r. with_columns r (Option.bind (message r) (extract_ip alnum))
                      (to_datetime_cell parse (time r))) rs)"
proof -
  have i: "apply_extract_ip alnum (map message rs) =
      Inr (map (\<lambda>r. Option.bind (message r) (extract_ip alnum)) rs)"
    using assms(1) by (rule apply_extract_ip_total)
  have d: "to_datetime pd_parse (map time rs) =
      Inr (map (\<lambda>r. to_datetime_cell parse (time r)) rs)"
    by (simp add: to_datetime_def assms(2) comp_def)
  show ?thesis
    unfolding add_columns_def i d
    using zip_columns [of with_columns rs "\<lambda>r. Option.bind (message r) (extract_ip alnum)"
        "\<lambda>r. to_datetime_cell parse (time r)"]
    by simp
qed

lemma dropna_with_columns:
  "message r \<noteq> None \<Longrightarrow>
   dropna_row (with_columns r (Option.bind (message r) (extract_ip alnum))
                 (to_datetime_cell parse (time r))) = grouped_as alnum parse r"
  by (auto simp: grouped_as_def)

lemma dropna_closed:
  "(\<And>r. r \<in> set rs \<Longrightarrow> message r \<noteq> None) \<Longrightarrow>
   dropna (map (\<lambda>r. with_columns r (Option.bind (message r) (extract_ip alnum))
                       (to_datetime_cell parse (time r))) rs) =
     List.map_filter (grouped_as alnum parse) rs"
proof (induction rs)
  case Nil
  then show ?case by (simp add: dropna_def)
next
  case (Cons r rs)
  have "message r \<noteq> None" using Cons.prems [of r] by simp
  then have "dropna_row (with_columns r (Option.bind (message r) (extract_ip alnum))
                 (to_datetime_cell parse (time r))) = grouped_as alnum parse r"
    by (rule dropna_with_columns)
  moreover have "dropna (map (\<lambda>r. with_columns r (Option.bind (message r) (extract_ip alnum))
                       (to_datetime_cell parse (time r))) rs) =
     List.map_filter (grouped_as alnum parse) rs"
    using Cons by simp
  ultimately show ?case
    by (simp add: dropna_def split: option.splits)
qed

lemma ip_attempts_closed:
  assumes "\<And>r. r \<in> set rs \<Longrightarrow> message r \<noteq> None" and "pd_parse (map time rs) = Inr parse"
  shows "ip_attempts alnum pd_parse rs =
     Inr (group_loop (List.map_filter (grouped_as alnum parse) rs) [])"
  using assms add_columns_closed [of rs pd_parse parse alnum] dropna_closed [of rs alnum parse]
  by (simp add: ip_attempts_def group_attempts_def)

lemma ip_attempts_Inr:
  assumes "ip_attempts alnum pd_parse rs = Inr attempts" and "pd_parse (map time rs) = Inr parse"
  shows "attempts = group_loop (List.map_filter (grouped_as alnum parse) rs) []"
proof -
  obtain ips where "apply_extract_ip alnum (map message rs) = Inr ips"
    using assms(1) by (auto simp: ip_attempts_def add_columns_def split: sum.splits)
  then have "\<And>r. r \<in> set rs \<Longrightarrow> message r \<noteq> None"
    by (rule apply_extract_ip_Inr)
  then have "ip_attempts alnum pd_parse rs =
     Inr (group_loop (List.map_filter (grouped_as alnum parse) rs) [])"
    using assms(2) ip_attempts_closed [of rs pd_parse parse alnum] by simp
  then show ?thesis using assms(1) by simp
qed

lemma map_filter_removeAll:
  "f r = None \<Longrightarrow> List.map_filter f (removeAll r rs) = List.map_filter f rs"
  by (induction rs) (auto split: option.splits)

lemma grouped_as_None:
  "topics r = None \<or> time r = None \<or> Option.bind (message r) (extract_ip alnum) = None \<or>
   to_datetime_cell parse (time r) = None \<Longrightarrow> grouped_as alnum parse r = None"
  by (auto simp: grouped_as_def with_columns_def dropna_row_def to_datetime_cell_def
      split: option.splits)

lemma grouped_as_Some_iff:
  "grouped_as alnum parse r = Some (i, d) \<longleftrightarrow>
     topics r \<noteq> None \<and> Option.bind (message r) (extract_ip alnum) = Some i \<and>
     to_datetime_cell parse (time r) = Some d"
  by (auto simp: grouped_as_def with_columns_def dropna_row_def to_datetime_cell_def
      split: option.splits)

lemma ip_attempts_without:
  assumes "\<And>x. x \<in> set rs \<Longrightarrow> message x \<noteq> None" and "pd_parse (map time rs) = Inr parse"
    and "grouped_as alnum parse r = None"
  shows "ip_attempts alnum pd_parse rs =
     Inr (group_loop (List.map_filter (grouped_as alnum parse) (removeAll r rs)) [])"
  using ip_attempts_closed [of rs pd_parse parse alnum] assms
    map_filter_removeAll [of "grouped_as alnum parse" r rs]
  by simp

text \<open>
  C6. Every new record is in the ledger after the run and in the table of the report,
  whatever becomes of its time. When \<^verbatim>\<open>pd.to_datetime\<close> returns and the time of the
  record is NaT in the column of this run, the record is not grouped: the dictionary of
  attempts is the one the loop builds from the other new records. When
  \<^verbatim>\<open>pd.to_datetime\<close> raises, nothing is grouped at all.
\<close>

theorem unparseable_time_persisted_reported_not_grouped:
  assumes "new_entries (classify log_entries) (read_ledger ledger_file) = Inr new"
    and "r \<in> set new"
  shows "r \<in> set (read_ledger (ledger_after (main alnum pd_parse stamp log_entries ledger_file))) \<and>
         (\<exists>rest. written (main alnum pd_parse stamp log_entries ledger_file) =
            (''failed_logins_'' @ stamp @ ''.txt'', Report new) # rest) \<and>
         (\<forall>parse. pd_parse (map time new) = Inr parse \<and> to_datetime_cell parse (time r) = None \<longrightarrow>
            ip_attempts alnum pd_parse new =
              Inr (group_loop (List.map_filter (grouped_as alnum parse) (removeAll r new)) [])) \<and>
         (\<forall>e. pd_parse (map time new) = Inl e \<longrightarrow> ip_attempts alnum pd_parse new = Inl e)"
proof -
  have ne: "new \<noteq> []" using assms(2) by auto
  have msg: "\<And>x. x \<in> set new \<Longrightarrow> message x \<noteq> None"
    using new_entries_message [OF assms(1)] .
  have grouped: "ip_attempts alnum pd_parse new =
      Inr (group_loop (List.map_filter (grouped_as alnum parse) (removeAll r new)) [])"
    if "pd_parse (map time new) = Inr parse" and "to_datetime_cell parse (time r) = None" for parse
  proof -
    have "grouped_as alnum parse r = None"
      using that(2) by (simp add: grouped_as_None)
    then show ?thesis
      using ip_attempts_without [of new pd_parse parse alnum r] msg that(1) by simp
  qed
  have raised: "ip_attempts alnum pd_parse new = Inl e" if "pd_parse (map time new) = Inl e" for e
    using apply_extract_ip_total [of new alnum] msg that
    by (simp add: ip_attempts_def add_columns_def to_datetime_def)
  show ?thesis
    using main_new [OF assms(1) ne, of alnum pd_parse stamp] assms(2) grouped raised
    by (simp add: read_ledger_def)
qed

text \<open>
  C10. A new record with any cell of its row missing (no topics, no time, no address in
  the message, or a time that is NaT in the column of this run) is not grouped: the
  dictionary of attempts, and with it the detection, is the one built from the other new
  records. This holds in particular for a record with an address and a parseable time
  but no topics.
\<close>

theorem row_with_missing_field_not_grouped:
  assumes "new_entries (classify log_entries) (read_ledger ledger_file) = Inr new"
    and "pd_parse (map time new) = Inr parse"
    and "topics r = None \<or> time r = None \<or> Option.bind (message r) (extract_ip alnum) = None \<or>
         to_datetime_cell parse (time r) = None"
  shows "ip_attempts alnum pd_parse new =
           Inr (group_loop (List.map_filter (grouped_as alnum parse) (removeAll r new)) []) \<and>
         detect alnum pd_parse new =
           Inr (brute_force_ips
                  (group_loop (List.map_filter (grouped_as alnum parse) (removeAll r new)) []))"
proof -
  have msg: "\<And>x. x \<in> set new \<Longrightarrow> message x \<noteq> None"
    using new_entries_message [OF assms(1)] .
  have "grouped_as alnum parse r = None"
    using assms(3) by (rule grouped_as_None)
  then have "ip_attempts alnum pd_parse new =
      Inr (group_loop (List.map_filter (grouped_as alnum parse) (removeAll r new)) [])"
    using ip_attempts_without [of new pd_parse parse alnum r] msg assms(2) by simp
  then show ?thesis by (simp add: detect_def)
qed

text \<open>
  C9. The flagged addresses are emitted in the order in which the addresses are first
  seen among the new records that enter the grouping (the rows \<open>dropna\<close> keeps), not
  among all new records.
\<close>

theorem flagged_in_order_first_grouped:
  assumes "detect alnum pd_parse new = Inr ips"
  shows "\<exists>parse. pd_parse (map time new) = Inr parse \<and>
           ips = filter (\<lambda>i. i \<in> set ips)
                   (first_seen (map fst (List.map_filter (grouped_as alnum parse) new)))"
proof -
  obtain attempts where a: "ip_attempts alnum pd_parse new = Inr attempts"
    and ips: "ips = brute_force_ips attempts"
    using assms by (auto simp: detect_def split: sum.splits)
  obtain parse where parse: "pd_parse (map time new) = Inr parse"
    using a by (auto simp: ip_attempts_def add_columns_def to_datetime_def split: sum.splits)
  let ?g = "List.map_filter (grouped_as alnum parse) new"
  have eq: "ips = filter (\<lambda>k. is_brute_force (values_of k ?g)) (first_seen (map fst ?g))"
    unfolding ips ip_attempts_Inr [OF a parse] by (rule brute_force_ips_closed)
  have "filter (\<lambda>i. i \<in> set ips) (first_seen (map fst ?g)) =
        filter (\<lambda>k. is_brute_force (values_of k ?g)) (first_seen (map fst ?g))"
    by (rule filter_cong) (auto simp: eq)
  then have "ips = filter (\<lambda>i. i \<in> set ips) (first_seen (map fst ?g))"
    using eq by simp
  then show ?thesis using parse by blast
qed

subsection \<open>Concrete runs of the detection\<close>

theorem unparseable_time_persisted_reported_not_grouped_witness:
  "failure_of (ssh_failure ''yesterday'' ''10.0.0.5'') \<in>
     set (read_ledger (ledger_after (main ascii_only clock_column ''2024-05-01_10-00''
       [ssh_failure ''10:00:01'' ''10.0.0.5'', ssh_failure ''yesterday'' ''10.0.0.5''] None))) \<and>
   (\<exists>rest. written (main ascii_only clock_column ''2024-05-01_10-00''
       [ssh_failure ''10:00:01'' ''10.0.0.5'', ssh_failure ''yesterday'' ''10.0.0.5''] None) =
     (''failed_logins_2024-05-01_10-00.txt'',
      Report [failure_of (ssh_failure ''10:00:01'' ''10.0.0.5''),
              failure_of (ssh_failure ''yesterday'' ''10.0.0.5'')]) # rest) \<and>
   ip_attempts ascii_only clock_column
     [failure_of (ssh_failure ''10:00:01'' ''10.0.0.5''),
      failure_of (ssh_failure ''yesterday'' ''10.0.0.5'')] =
   Inr [(''10.0.0.5'', [36001000000000])]"
proof -
  let ?a = "ssh_failure ''10:00:01'' ''10.0.0.5''"
  let ?b = "ssh_failure ''yesterday'' ''10.0.0.5''"
  have c: "classify [?a, ?b] = [failure_of ?a, failure_of ?b]"
    by code_simp
  have ab: "failure_of ?a \<noteq> failure_of ?b"
    by code_simp
  have idab: "ident (failure_of ?a) \<noteq> ident (failure_of ?b)"
    by code_simp
  have n: "new_entries (classify [?a, ?b]) (read_ledger None) = Inr [failure_of ?a, failure_of ?b]"
    unfolding c by (simp add: new_entries_def select_rows_def isin_def read_ledger_def)
  have m: "failure_of ?b \<in> set [failure_of ?a, failure_of ?b]"
    by simp
  have col: "clock_column (map time [failure_of ?a, failure_of ?b]) = Inr clock_parse"
    by (simp add: clock_column_def)
  have p: "to_datetime_cell clock_parse (time (failure_of ?b)) = None"
    by code_simp
  have r: "removeAll (failure_of ?b) [failure_of ?a, failure_of ?b] = [failure_of ?a]"
    using ab by auto
  have e: "group_loop (List.map_filter (grouped_as ascii_only clock_parse) [failure_of ?a]) [] =
      [(''10.0.0.5'', [36001000000000])]"
    by code_simp
  note run = unparseable_time_persisted_reported_not_grouped
      [OF n m, of ascii_only clock_column "''2024-05-01_10-00''"]
  from run have 1: "failure_of ?b \<in> set (read_ledger (ledger_after
      (main ascii_only clock_column ''2024-05-01_10-00'' [?a, ?b] None)))"
    by blast
  from run have 2: "\<exists>rest. written (main ascii_only clock_column ''2024-05-01_10-00'' [?a, ?b] None) =
      (''failed_logins_'' @ ''2024-05-01_10-00'' @ ''.txt'',
       Report [failure_of ?a, failure_of ?b]) # rest"
    by blast
  from run col p have "ip_attempts ascii_only clock_column [failure_of ?a, failure_of ?b] =
      Inr (group_loop (List.map_filter (grouped_as ascii_only clock_parse)
             (removeAll (failure_of ?b) [failure_of ?a, failure_of ?b])) [])"
    by blast
  then have 3: "ip_attempts ascii_only clock_column [failure_of ?a, failure_of ?b] =
      Inr [(''10.0.0.5'', [36001000000000])]"
    unfolding r e .
  show ?thesis
    using 1 2 3 by simp
qed

theorem row_with_missing_field_not_grouped_witness:
  "detect ascii_only clock_column
     (classify [(ssh_failure ''10:00:01'' ''10.0.0.5'')(''topics'' := None),
                ssh_failure ''10:00:02'' ''10.0.0.5'']) = Inr [] \<and>
   detect ascii_only clock_column
     (classify [ssh_failure ''10:00:01'' ''10.0.0.5'',
                ssh_failure ''10:00:02'' ''10.0.0.5'']) = Inr [''10.0.0.5'']"
proof -
  let ?a = "(ssh_failure ''10:00:01'' ''10.0.0.5'')(''topics'' := None)"
  let ?b = "ssh_failure ''10:00:02'' ''10.0.0.5''"
  have c: "classify [?a, ?b] = [failure_of ?a, failure_of ?b]"
    by code_simp
  have ab: "failure_of ?a \<noteq> failure_of ?b"
    by code_simp
  have n: "new_entries (classify [?a, ?b]) (read_ledger None) = Inr [failure_of ?a, failure_of ?b]"
    unfolding c by (simp add: new_entries_def select_rows_def isin_def read_ledger_def failure_of_def fmt_def ssh_failure_def)
  have col: "clock_column (map time [failure_of ?a, failure_of ?b]) = Inr clock_parse"
    by (simp add: clock_column_def)
  have t: "topics (failure_of ?a) = None"
    by (simp add: failure_of_def)
  have r: "removeAll (failure_of ?a) [failure_of ?a, failure_of ?b] = [failure_of ?b]"
    using ab by auto
  have e: "brute_force_ips
      (group_loop (List.map_filter (grouped_as ascii_only clock_parse) [failure_of ?b]) []) = []"
    by code_simp
  have f: "detect ascii_only clock_column
      (classify [ssh_failure ''10:00:01'' ''10.0.0.5'', ?b]) = Inr [''10.0.0.5'']"
    by code_simp
  have "detect ascii_only clock_column [failure_of ?a, failure_of ?b] = Inr []"
    using row_with_missing_field_not_grouped
      [where pd_parse = clock_column and parse = clock_parse and alnum = ascii_only
         and r = "failure_of ?a", OF n col] t
    unfolding r e by simp
  then show ?thesis
    unfolding c using f by simp
qed

lemma detect_sample_order:
  "detect ascii_only clock_column
     (classify [ssh_failure ''yesterday'' ''10.0.0.5'', ssh_failure ''10:00:01'' ''10.0.0.7'',
                ssh_failure ''10:00:02'' ''10.0.0.7'', ssh_failure ''10:00:03'' ''10.0.0.5'',
                ssh_failure ''10:00:04'' ''10.0.0.5'']) =
   Inr [''10.0.0.7'', ''10.0.0.5'']"
  by code_simp

theorem flagged_in_order_first_grouped_witness:
  "[''10.0.0.7'', ''10.0.0.5''] =
     filter (\<lambda>i. i \<in> set [''10.0.0.7'', ''10.0.0.5''])
       (first_seen (map fst (List.map_filter (grouped_as ascii_only clock_parse)
          (classify [ssh_failure ''yesterday'' ''10.0.0.5'', ssh_failure ''10:00:01'' ''10.0.0.7'',
                ssh_failure ''10:00:02'' ''10.0.0.7'', ssh_failure ''10:00:03'' ''10.0.0.5'',
                ssh_failure ''10:00:04'' ''10.0.0.5'']))))"
proof -
  obtain parse where col: "clock_column (map time
      (classify [ssh_failure ''yesterday'' ''10.0.0.5'', ssh_failure ''10:00:01'' ''10.0.0.7'',
                ssh_failure ''10:00:02'' ''10.0.0.7'', ssh_failure ''10:00:03'' ''10.0.0.5'',
                ssh_failure ''10:00:04'' ''10.0.0.5''])) = Inr parse"
    and order: "[''10.0.0.7'', ''10.0.0.5''] =
     filter (\<lambda>i. i \<in> set [''10.0.0.7'', ''10.0.0.5''])
       (first_seen (map fst (List.map_filter (grouped_as ascii_only parse)
          (classify [ssh_failure ''yesterday'' ''10.0.0.5'', ssh_failure ''10:00:01'' ''10.0.0.7'',
                ssh_failure ''10:00:02'' ''10.0.0.7'', ssh_failure ''10:00:03'' ''10.0.0.5'',
                ssh_failure ''10:00:04'' ''10.0.0.5'']))))"
    using flagged_in_order_first_grouped [OF detect_sample_order] by blast
  from col have "parse = clock_parse"
    by (simp add: clock_column_def)
  with order show ?thesis by (simp only:)
qed

theorem flagged_order_counterexample:
  "detect ascii_only clock_column
     (classify [ssh_failure ''yesterday'' ''10.0.0.5'', ssh_failure ''10:00:01'' ''10.0.0.7'',
                ssh_failure ''10:00:02'' ''10.0.0.7'', ssh_failure ''10:00:03'' ''10.0.0.5'',
                ssh_failure ''10:00:04'' ''10.0.0.5'']) =
   Inr [''10.0.0.7'', ''10.0.0.5''] \<and>
   first_seen (addresses ascii_only
     (classify [ssh_failure ''yesterday'' ''10.0.0.5'', ssh_failure ''10:00:01'' ''10.0.0.7'',
                ssh_failure ''10:00:02'' ''10.0.0.7'', ssh_failure ''10:00:03'' ''10.0.0.5'',
                ssh_failure ''10:00:04'' ''10.0.0.5''])) =
   [''10.0.0.5'', ''10.0.0.7'']"
proof -
  have "first_seen (addresses ascii_only
     (classify [ssh_failure ''yesterday'' ''10.0.0.5'', ssh_failure ''10:00:01'' ''10.0.0.7'',
                ssh_failure ''10:00:02'' ''10.0.0.7'', ssh_failure ''10:00:03'' ''10.0.0.5'',
                ssh_failure ''10:00:04'' ''10.0.0.5''])) =
   [''10.0.0.5'', ''10.0.0.7'']"
    by code_simp
  then show ?thesis using detect_sample_order by simp
qed

subsection \<open>The IP extractor\<close>

lemma not_digit_dot: "\<not> is_digit CHR ''.''"
  by (simp add: is_digit_def)

lemma digit_word: "is_digit c \<Longrightarrow> is_word alnum c"
  by (auto simp: is_digit_def is_word_def)

lemma digit_group_cases:
  "digit_group g \<longleftrightarrow>
     (\<exists>a. g = [a] \<and> is_digit a) \<or>
     (\<exists>a b. g = [a, b] \<and> is_digit a \<and> is_digit b) \<or>
     (\<exists>a b c. g = [a, b, c] \<and> is_digit a \<and> is_digit b \<and> is_digit c)"
proof (cases g)
  case Nil
  then show ?thesis by (simp add: digit_group_def)
next
  case g1: (Cons a g')
  show ?thesis
  proof (cases g')
    case Nil
    then show ?thesis by (simp add: digit_group_def g1)
  next
    case g2: (Cons b g'')
    show ?thesis
    proof (cases g'')
      case Nil
      then show ?thesis by (simp add: digit_group_def g1 g2)
    next
      case g3: (Cons c g''')
      then show ?thesis by (cases g''') (auto simp: digit_group_def g1 g2)
    qed
  qed
qed

lemma first_some_321:
  "first_some f [3, 2, 1::nat] = Some y \<longleftrightarrow>
     f 3 = Some y \<or> (f 3 = None \<and> f 2 = Some y) \<or> (f 3 = None \<and> f 2 = None \<and> f 1 = Some y)"
  by (auto split: option.splits)

lemma first_some_Some: "first_some f xs = Some y \<Longrightarrow> \<exists>x \<in> set xs. f x = Some y"
  by (induction xs) (auto split: option.splits)

lemma head_drop:
  assumes "head (drop k s) = Some c"
  shows "s = take k s @ c # drop (Suc k) s" and "k < length s"
proof -
  obtain l where d: "drop k s = c # l"
    using assms by (cases "drop k s") (auto simp: head_def)
  then show k: "k < length s"
    by (cases "k < length s") auto
  then have "s ! k = c"
    using d hd_drop_conv_nth [of k s] by simp
  then show "s = take k s @ c # drop (Suc k) s"
    using id_take_nth_drop [OF k] by simp
qed

lemma match_quad_Suc_iff:
  "match_quad alnum (Suc n) s = Some m \<longleftrightarrow>
     (\<exists>g r m'. s = g @ ''.'' @ r \<and> digit_group g \<and> match_quad alnum n r = Some m' \<and>
        m = length g + 1 + m')"
proof
  assume "match_quad alnum (Suc n) s = Some m"
  then have "\<exists>k \<in> set [3, 2, 1::nat].
      (if digits_prefix k s \<and> head (drop k s) = Some CHR ''.''
       then map_option (\<lambda>m. k + 1 + m) (match_quad alnum n (drop (Suc k) s)) else None) = Some m"
    unfolding match_quad.simps by (rule first_some_Some)
  then obtain k where k: "k = 3 \<or> k = 2 \<or> k = 1"
    and eq: "(if digits_prefix k s \<and> head (drop k s) = Some CHR ''.''
       then map_option (\<lambda>m. k + 1 + m) (match_quad alnum n (drop (Suc k) s)) else None) = Some m"
    by auto
  from eq have dp: "digits_prefix k s" and hd: "head (drop k s) = Some CHR ''.''"
    by (simp_all split: if_splits)
  with eq obtain m' where rest: "match_quad alnum n (drop (Suc k) s) = Some m'" and m: "m = k + 1 + m'"
    by auto
  have s: "s = take k s @ ''.'' @ drop (Suc k) s"
    using head_drop(1) [OF hd] by simp
  have "length (take k s) = k"
    using dp by (simp add: digits_prefix_def)
  then have "digit_group (take k s)"
    using dp k by (auto simp: digits_prefix_def digit_group_def)
  then show "\<exists>g r m'. s = g @ ''.'' @ r \<and> digit_group g \<and> match_quad alnum n r = Some m' \<and>
        m = length g + 1 + m'"
    using s rest m \<open>length (take k s) = k\<close> by metis
next
  assume "\<exists>g r m'. s = g @ ''.'' @ r \<and> digit_group g \<and> match_quad alnum n r = Some m' \<and>
        m = length g + 1 + m'"
  then obtain g r m' where s: "s = g @ ''.'' @ r" and g: "digit_group g"
    and rest: "match_quad alnum n r = Some m'" and m: "m = length g + 1 + m'"
    by blast
  from g show "match_quad alnum (Suc n) s = Some m"
    unfolding digit_group_cases match_quad.simps first_some_321
    by (auto simp: s m rest digits_prefix_def head_def not_digit_dot)
qed

lemma first_some_321_at:
  assumes "k = 1 \<or> k = 2 \<or> k = (3::nat)" and "f k = Some y"
    and "\<And>j. k < j \<Longrightarrow> j \<le> 3 \<Longrightarrow> f j = None"
  shows "first_some f [3, 2, 1] = Some y"
proof -
  consider "k = 1" | "k = 2" | "k = 3" using assms(1) by blast
  then show ?thesis
  proof cases
    case 1
    then have "f 3 = None" "f 2 = None" using assms(3) by simp_all
    then show ?thesis using assms(2) 1 by simp
  next
    case 2
    then have "f 3 = None" using assms(3) by simp
    then show ?thesis using assms(2) 2 by simp
  next
    case 3
    then show ?thesis using assms(2) by simp
  qed
qed

lemma digits_prefix_past_group:
  assumes "\<not> is_word_at alnum (head r)" and "length g < j"
  shows "\<not> digits_prefix j (g @ r)"
proof
  assume dp: "digits_prefix j (g @ r)"
  then have "j \<le> length g + length r" and all: "list_all is_digit (take j (g @ r))"
    by (simp_all add: digits_prefix_def)
  with assms(2) obtain c cs where r: "r = c # cs" by (cases r) auto
  have "c \<in> set (take j (g @ r))"
    using assms(2) by (simp add: r take_Cons')
  then have "is_digit c" using all by (simp add: list_all_iff)
  then show False using assms(1) by (simp add: r head_def is_word_at_def digit_word)
qed

lemma match_quad_0_iff:
  "match_quad alnum 0 s = Some m \<longleftrightarrow>
     (\<exists>g r. s = g @ r \<and> digit_group g \<and> \<not> is_word_at alnum (head r) \<and> m = length g)"
proof
  assume "match_quad alnum 0 s = Some m"
  then have "\<exists>k \<in> set [3, 2, 1::nat].
      (if digits_prefix k s \<and> word_boundary alnum (Some (last (take k s))) (head (drop k s))
       then Some k else None) = Some m"
    unfolding match_quad.simps by (rule first_some_Some)
  then obtain k where k: "k = 3 \<or> k = 2 \<or> k = 1"
    and eq: "(if digits_prefix k s \<and> word_boundary alnum (Some (last (take k s))) (head (drop k s))
       then Some k else None) = Some m"
    by auto
  from eq have dp: "digits_prefix k s"
    and wb: "word_boundary alnum (Some (last (take k s))) (head (drop k s))" and m: "m = k"
    by (simp_all split: if_splits)
  have len: "length (take k s) = k"
    using dp by (simp add: digits_prefix_def)
  then have ne: "take k s \<noteq> []" using k by auto
  have g: "digit_group (take k s)"
    using dp k len by (auto simp: digits_prefix_def digit_group_def)
  have "is_digit (last (take k s))"
    using dp ne by (simp add: digits_prefix_def list_all_iff)
  then have "is_word_at alnum (Some (last (take k s)))"
    by (simp add: is_word_at_def digit_word)
  then have "\<not> is_word_at alnum (head (drop k s))"
    using wb by (simp add: word_boundary_def)
  moreover have "s = take k s @ drop k s" by simp
  ultimately show "\<exists>g r. s = g @ r \<and> digit_group g \<and> \<not> is_word_at alnum (head r) \<and> m = length g"
    using g len m by metis
next
  assume "\<exists>g r. s = g @ r \<and> digit_group g \<and> \<not> is_word_at alnum (head r) \<and> m = length g"
  then obtain g r where s: "s = g @ r" and g: "digit_group g"
    and r: "\<not> is_word_at alnum (head r)" and m: "m = length g"
    by blast
  let ?f = "\<lambda>k. if digits_prefix k s \<and> word_boundary alnum (Some (last (take k s))) (head (drop k s))
                 then Some k else None"
  have k: "length g = 1 \<or> length g = 2 \<or> length g = 3"
    using g by (auto simp: digit_group_def)
  then have ne: "g \<noteq> []" by auto
  have dp: "digits_prefix (length g) s"
    using g by (simp add: digits_prefix_def digit_group_def s)
  have "is_digit (last g)"
    using g ne by (simp add: digit_group_def list_all_iff)
  then have "is_word_at alnum (Some (last g))"
    by (simp add: is_word_at_def digit_word)
  then have "word_boundary alnum (Some (last (take (length g) s))) (head (drop (length g) s))"
    using r by (simp add: word_boundary_def s)
  then have here: "?f (length g) = Some (length g)"
    using dp by simp
  have later: "?f j = None" if "length g < j" for j
    using digits_prefix_past_group [OF r that] by (simp add: s)
  have "first_some ?f [3, 2, 1] = Some (length g)"
    using k here later by (rule first_some_321_at)
  then show "match_quad alnum 0 s = Some m"
    by (simp only: match_quad.simps m)
qed

lemma match_quad_3_iff:
  "match_quad alnum 3 s = Some m \<longleftrightarrow>
     (\<exists>quad suf. s = quad @ suf \<and> dotted_quad quad \<and> \<not> is_word_at alnum (head suf) \<and>
        m = length quad)"
proof
  assume "match_quad alnum 3 s = Some m"
  then have "match_quad alnum (Suc (Suc (Suc 0))) s = Some m"
    by (simp add: numeral_3_eq_3)
  then obtain a r1 m1 where 1: "s = a @ ''.'' @ r1" "digit_group a"
    "match_quad alnum (Suc (Suc 0)) r1 = Some m1" "m = length a + 1 + m1"
    unfolding match_quad_Suc_iff [of _ "Suc (Suc 0)"] by blast
  then obtain b r2 m2 where 2: "r1 = b @ ''.'' @ r2" "digit_group b"
    "match_quad alnum (Suc 0) r2 = Some m2" "m1 = length b + 1 + m2"
    unfolding match_quad_Suc_iff [of _ "Suc 0"] by blast
  then obtain c r3 m3 where 3: "r2 = c @ ''.'' @ r3" "digit_group c"
    "match_quad alnum 0 r3 = Some m3" "m2 = length c + 1 + m3"
    unfolding match_quad_Suc_iff [of _ 0] by blast
  then obtain d suf where 4: "r3 = d @ suf" "digit_group d" "\<not> is_word_at alnum (head suf)"
    "m3 = length d"
    unfolding match_quad_0_iff by blast
  let ?q = "a @ ''.'' @ b @ ''.'' @ c @ ''.'' @ d"
  have "s = ?q @ suf" using 1 2 3 4 by simp
  moreover have "dotted_quad ?q"
    unfolding dotted_quad_def using 1 2 3 4 by blast
  moreover have "m = length ?q" using 1 2 3 4 by simp
  ultimately show "\<exists>quad suf. s = quad @ suf \<and> dotted_quad quad \<and> \<not> is_word_at alnum (head suf) \<and>
        m = length quad"
    using 4(3) by blast
next
  assume "\<exists>quad suf. s = quad @ suf \<and> dotted_quad quad \<and> \<not> is_word_at alnum (head suf) \<and>
        m = length quad"
  then obtain quad suf where s: "s = quad @ suf" and q: "dotted_quad quad"
    and suf: "\<not> is_word_at alnum (head suf)" and m: "m = length quad"
    by blast
  from q obtain a b c d where quad: "quad = a @ ''.'' @ b @ ''.'' @ c @ ''.'' @ d"
    and g: "digit_group a" "digit_group b" "digit_group c" "digit_group d"
    unfolding dotted_quad_def by blast
  have 0: "match_quad alnum 0 (d @ suf) = Some (length d)"
    unfolding match_quad_0_iff using g(4) suf by blast
  have 1: "match_quad alnum (Suc 0) (c @ ''.'' @ d @ suf) = Some (length c + 1 + length d)"
    unfolding match_quad_Suc_iff using g(3) 0 by blast
  have 2: "match_quad alnum (Suc (Suc 0)) (b @ ''.'' @ c @ ''.'' @ d @ suf) =
      Some (length b + 1 + (length c + 1 + length d))"
    unfolding match_quad_Suc_iff [of _ "Suc 0"] using g(2) 1 by blast
  have 3: "match_quad alnum (Suc (Suc (Suc 0))) (a @ ''.'' @ b @ ''.'' @ c @ ''.'' @ d @ suf) =
      Some (length a + 1 + (length b + 1 + (length c + 1 + length d)))"
    unfolding match_quad_Suc_iff [of _ "Suc (Suc 0)"] using g(1) 2 by blast
  then show "match_quad alnum 3 s = Some m"
    by (simp add: numeral_3_eq_3 s quad m)
qed

lemma dotted_quad_first_digit:
  assumes "dotted_quad quad"
  shows "\<exists>c cs. quad = c # cs \<and> is_digit c"
proof -
  from assms obtain a rest where "quad = a @ rest" and "digit_group a"
    unfolding dotted_quad_def by blast
  then show ?thesis unfolding digit_group_cases by auto
qed

lemma not_dotted_quad_Nil: "\<not> dotted_quad []"
  using dotted_quad_first_digit [of "[]"] by auto

lemma match_here_iff:
  "match_here alnum left s = Some m \<longleftrightarrow> (\<exists>quad suf. quad_at alnum left s [] quad suf \<and> m = length quad)"
proof
  assume a: "match_here alnum left s = Some m"
  then have wb: "word_boundary alnum left (head s)" and mq: "match_quad alnum 3 s = Some m"
    by (simp_all add: match_here_def split: if_splits)
  from mq obtain quad suf where s: "s = quad @ suf" and q: "dotted_quad quad"
    and suf: "\<not> is_word_at alnum (head suf)" and m: "m = length quad"
    unfolding match_quad_3_iff by blast
  from dotted_quad_first_digit [OF q] have "is_word_at alnum (head s)"
    by (auto simp: s head_def is_word_at_def digit_word)
  then have "\<not> is_word_at alnum left"
    using wb by (simp add: word_boundary_def)
  then show "\<exists>quad suf. quad_at alnum left s [] quad suf \<and> m = length quad"
    using s q suf m by (auto simp: quad_at_def)
next
  assume "\<exists>quad suf. quad_at alnum left s [] quad suf \<and> m = length quad"
  then obtain quad suf where s: "s = quad @ suf" and q: "dotted_quad quad"
    and l: "\<not> is_word_at alnum left" and suf: "\<not> is_word_at alnum (head suf)" and m: "m = length quad"
    by (auto simp: quad_at_def)
  have mq: "match_quad alnum 3 s = Some m"
    unfolding match_quad_3_iff using s q suf m by blast
  from dotted_quad_first_digit [OF q] have "is_word_at alnum (head s)"
    by (auto simp: s head_def is_word_at_def digit_word)
  then have "word_boundary alnum left (head s)"
    using l by (simp add: word_boundary_def)
  then show "match_here alnum left s = Some m"
    using mq by (simp add: match_here_def)
qed

lemma quad_at_Cons:
  "quad_at alnum left (c # cs) (c' # p) quad suf \<longleftrightarrow> c' = c \<and> quad_at alnum (Some c) cs p quad suf"
  by (auto simp: quad_at_def)

lemma re_search_iff:
  "re_search alnum left s = Some quad \<longleftrightarrow>
     (\<exists>pre suf. quad_at alnum left s pre quad suf \<and>
        (\<forall>pre' quad' suf'. quad_at alnum left s pre' quad' suf' \<longrightarrow> length pre \<le> length pre'))"
proof (induction s arbitrary: left)
  case Nil
  have "match_here alnum left [] = None"
  proof (cases "match_here alnum left []")
    case (Some m)
    then show ?thesis
      unfolding match_here_iff by (auto simp: quad_at_def not_dotted_quad_Nil)
  qed simp
  moreover have "\<not> quad_at alnum left [] pre quad suf" for pre suf
    by (auto simp: quad_at_def not_dotted_quad_Nil)
  ultimately show ?case by simp
next
  case (Cons c cs)
  show ?case
  proof (cases "match_here alnum left (c # cs)")
    case (Some n)
    then obtain q0 suf0 where hit: "quad_at alnum left (c # cs) [] q0 suf0" and n: "n = length q0"
      unfolding match_here_iff by blast
    then have q0: "take n (c # cs) = q0"
      by (simp add: quad_at_def)
    have res: "re_search alnum left (c # cs) = Some q0"
      using Some q0 by simp
    show ?thesis
    proof
      assume "re_search alnum left (c # cs) = Some quad"
      then have "quad = q0" using res by simp
      then show "\<exists>pre suf. quad_at alnum left (c # cs) pre quad suf \<and>
        (\<forall>pre' quad' suf'. quad_at alnum left (c # cs) pre' quad' suf' \<longrightarrow> length pre \<le> length pre')"
        using hit by (intro exI [of _ "[]"] exI [of _ suf0]) simp
    next
      assume "\<exists>pre suf. quad_at alnum left (c # cs) pre quad suf \<and>
        (\<forall>pre' quad' suf'. quad_at alnum left (c # cs) pre' quad' suf' \<longrightarrow> length pre \<le> length pre')"
      then obtain pre suf where h: "quad_at alnum left (c # cs) pre quad suf"
        and least: "\<And>pre' quad' suf'. quad_at alnum left (c # cs) pre' quad' suf' \<Longrightarrow> length pre \<le> length pre'"
        by blast
      from least [OF hit] have "pre = []" by simp
      then have "match_here alnum left (c # cs) = Some (length quad)"
        unfolding match_here_iff using h by blast
      then have "length quad = n" using Some by simp
      moreover have "take (length quad) (c # cs) = quad"
        using h \<open>pre = []\<close> by (simp add: quad_at_def)
      ultimately have "quad = q0" using q0 by simp
      then show "re_search alnum left (c # cs) = Some quad" using res by simp
    qed
  next
    case None
    then have res: "re_search alnum left (c # cs) = re_search alnum (Some c) cs"
      by simp
    have no_front: "\<not> quad_at alnum left (c # cs) [] quad' suf'" for quad' suf'
      using None match_here_iff [of alnum left "c # cs" "length quad'"] by auto
    have shift: "quad_at alnum left (c # cs) pre' quad' suf' \<longleftrightarrow>
        (\<exists>p. pre' = c # p \<and> quad_at alnum (Some c) cs p quad' suf')" for pre' quad' suf'
    proof (cases pre')
      case Nil
      then show ?thesis using no_front by simp
    next
      case (Cons c' p)
      then show ?thesis by (auto simp: quad_at_Cons)
    qed
    show ?thesis
    proof
      assume "re_search alnum left (c # cs) = Some quad"
      then obtain p suf where h: "quad_at alnum (Some c) cs p quad suf"
        and least: "\<And>pre' quad' suf'. quad_at alnum (Some c) cs pre' quad' suf' \<Longrightarrow> length p \<le> length pre'"
        unfolding res Cons.IH by blast
      have "quad_at alnum left (c # cs) (c # p) quad suf"
        using h by (simp add: shift)
      moreover have "length (c # p) \<le> length pre'" if "quad_at alnum left (c # cs) pre' quad' suf'"
        for pre' quad' suf'
        using that least unfolding shift by auto
      ultimately show "\<exists>pre suf. quad_at alnum left (c # cs) pre quad suf \<and>
        (\<forall>pre' quad' suf'. quad_at alnum left (c # cs) pre' quad' suf' \<longrightarrow> length pre \<le> length pre')"
        by blast
    next
      assume "\<exists>pre suf. quad_at alnum left (c # cs) pre quad suf \<and>
        (\<forall>pre' quad' suf'. quad_at alnum left (c # cs) pre' quad' suf' \<longrightarrow> length pre \<le> length pre')"
      then obtain pre suf where h: "quad_at alnum left (c # cs) pre quad suf"
        and least: "\<And>pre' quad' suf'. quad_at alnum left (c # cs) pre' quad' suf' \<Longrightarrow> length pre \<le> length pre'"
        by blast
      from h obtain p where pre: "pre = c # p" and hp: "quad_at alnum (Some c) cs p quad suf"
        unfolding shift by blast
      have "length p \<le> length p'" if "quad_at alnum (Some c) cs p' quad' suf'" for p' quad' suf'
      proof -
        have "quad_at alnum left (c # cs) (c # p') quad' suf'"
          using that by (simp add: shift)
        from least [OF this] show ?thesis by (simp add: pre)
      qed
      then have "re_search alnum (Some c) cs = Some quad"
        unfolding Cons.IH using hp by blast
      then show "re_search alnum left (c # cs) = Some quad"
        using res by simp
    qed
  qed
qed

lemma re_search_None_iff:
  "re_search alnum left s = None \<longleftrightarrow> \<not> (\<exists>pre quad suf. quad_at alnum left s pre quad suf)"
proof (induction s arbitrary: left)
  case Nil
  have "match_here alnum left [] = None"
  proof (cases "match_here alnum left []")
    case (Some m)
    then show ?thesis
      unfolding match_here_iff by (auto simp: quad_at_def not_dotted_quad_Nil)
  qed simp
  moreover have "\<not> quad_at alnum left [] pre quad suf" for pre quad suf
    by (auto simp: quad_at_def not_dotted_quad_Nil)
  ultimately show ?case by simp
next
  case (Cons c cs)
  show ?case
  proof (cases "match_here alnum left (c # cs)")
    case (Some n)
    then obtain q0 suf0 where "quad_at alnum left (c # cs) [] q0 suf0"
      unfolding match_here_iff by blast
    then show ?thesis using Some by auto
  next
    case None
    then have res: "re_search alnum left (c # cs) = re_search alnum (Some c) cs"
      by simp
    have no_front: "\<not> quad_at alnum left (c # cs) [] quad' suf'" for quad' suf'
      using None match_here_iff [of alnum left "c # cs" "length quad'"] by auto
    have "(\<exists>pre quad suf. quad_at alnum left (c # cs) pre quad suf) \<longleftrightarrow>
          (\<exists>p quad suf. quad_at alnum (Some c) cs p quad suf)"
    proof
      assume "\<exists>pre quad suf. quad_at alnum left (c # cs) pre quad suf"
      then obtain pre quad suf where h: "quad_at alnum left (c # cs) pre quad suf" by blast
      then obtain c' p where "pre = c' # p" using no_front by (cases pre) auto
      then show "\<exists>p quad suf. quad_at alnum (Some c) cs p quad suf"
        using h by (auto simp: quad_at_Cons)
    next
      assume "\<exists>p quad suf. quad_at alnum (Some c) cs p quad suf"
      then obtain p quad suf where "quad_at alnum (Some c) cs p quad suf" by blast
      then have "quad_at alnum left (c # cs) (c # p) quad suf" by (simp add: quad_at_Cons)
      then show "\<exists>pre quad suf. quad_at alnum left (c # cs) pre quad suf" by blast
    qed
    then show ?thesis unfolding res Cons.IH by simp
  qed
qed

text \<open>
  C8. The extractor returns the leftmost dotted quad of the message that is delimited by
  word boundaries (not directly preceded or followed by a word character: a letter, a
  digit or an underscore, letters and digits in the Unicode sense), and \<open>None\<close> exactly
  when the message holds no delimited dotted quad; a record whose message yields \<open>None\<close>
  is not grouped. A dotted quad that touches a word character, as in \<open>v1.2.3.4\<close>, is
  not found.
\<close>

theorem extract_ip_first_delimited_quad:
  "(extract_ip alnum msg = Some quad \<longleftrightarrow>
      (\<exists>pre suf. quad_at alnum None msg pre quad suf \<and>
         (\<forall>pre' quad' suf'. quad_at alnum None msg pre' quad' suf' \<longrightarrow>
            length pre \<le> length pre'))) \<and>
   (extract_ip alnum msg = None \<longleftrightarrow> \<not> (\<exists>pre quad suf. quad_at alnum None msg pre quad suf)) \<and>
   (message r = Some msg \<and> extract_ip alnum msg = None \<longrightarrow> grouped_as alnum parse r = None)"
proof -
  have "message r = Some msg \<and> extract_ip alnum msg = None \<longrightarrow> grouped_as alnum parse r = None"
    using grouped_as_None [of r alnum parse] by auto
  then show ?thesis
    unfolding extract_ip_def re_search_iff re_search_None_iff by blast
qed

theorem extract_ip_first_delimited_quad_witness:
  "(\<exists>pre suf. quad_at ascii_only None ''login failure from 192.168.1.50 port 22'' pre
       ''192.168.1.50'' suf) \<and>
   \<not> (\<exists>pre quad suf. quad_at ascii_only None ''login failure for user admin via console''
         pre quad suf) \<and>
   \<not> (\<exists>pre quad suf. quad_at latin_letter None (CHR 0xE9 # ''1.2.3.4'') pre quad suf)"
proof -
  have a: "extract_ip ascii_only ''login failure from 192.168.1.50 port 22'' = Some ''192.168.1.50''"
    by code_simp
  have b: "extract_ip ascii_only ''login failure for user admin via console'' = None"
    by code_simp
  have c: "extract_ip latin_letter (CHR 0xE9 # ''1.2.3.4'') = None"
    by code_simp
  have 1: "\<exists>pre suf. quad_at ascii_only None ''login failure from 192.168.1.50 port 22'' pre
       ''192.168.1.50'' suf"
    using extract_ip_first_delimited_quad
        [of ascii_only "''login failure from 192.168.1.50 port 22''" "''192.168.1.50''",
          THEN conjunct1] a
    by blast
  have 2: "\<not> (\<exists>pre quad suf. quad_at ascii_only None ''login failure for user admin via console''
         pre quad suf)"
    using extract_ip_first_delimited_quad
        [of ascii_only "''login failure for user admin via console''",
          THEN conjunct2, THEN conjunct1] b
    by simp
  have 3: "\<not> (\<exists>pre quad suf. quad_at latin_letter None (CHR 0xE9 # ''1.2.3.4'') pre quad suf)"
    using extract_ip_first_delimited_quad
        [of latin_letter "CHR 0xE9 # ''1.2.3.4''", THEN conjunct2, THEN conjunct1] c
    by simp
  show ?thesis
    using 1 2 3 by simp
qed

theorem extract_ip_undelimited_counterexample:
  "extract_ip ascii_only ''v1.2.3.4'' = None \<and>
   ''v1.2.3.4'' = ''v'' @ ''1.2.3.4'' @ '''' \<and> dotted_quad ''1.2.3.4''"
proof -
  have "extract_ip ascii_only ''v1.2.3.4'' = None"
    by code_simp
  moreover have "dotted_quad ''1.2.3.4''"
    unfolding dotted_quad_def
    by (rule exI [of _ "''1''"], rule exI [of _ "''2''"], rule exI [of _ "''3''"],
        rule exI [of _ "''4''"]) (simp add: digit_group_def is_digit_def)
  ultimately show ?thesis by simp
qed

text \<open>
  Characters outside ASCII count for the word boundaries: a quad that touches a letter
  such as the character 233 is not found, on either side, and a quad next to a character
  outside ASCII that is no letter or digit is found.
\<close>

lemma extract_ip_non_ascii:
  "extract_ip latin_letter (CHR 0xE9 # ''1.2.3.4'') = None"
  "extract_ip latin_letter (''from 10.0.0.5'' @ [CHR 0xE9]) = None"
  "extract_ip ascii_only (CHR 0xE9 # ''1.2.3.4'') = Some ''1.2.3.4''"
  by code_simp+

end
